theory Spec2Isabelle
  imports Main "HOL-Library.Word"
begin

unbundle bit_operations_syntax

section \<open>QOI15: a codec for 16-bit monochrome samples (qoi15.hpp)\<close>

text \<open>
  The C++ types are modelled as follows: \<open>uint16_t\<close> is \<open>16 word\<close>, \<open>uint8_t\<close> is
  \<open>8 word\<close>. The \<open>int\<close> and \<open>int32_t\<close> values that come from the samples (the run
  counter of the encoder, the argument of \<open>RunLength::Get\<close>, deltas) are \<open>int\<close>: each is
  bounded by the size of the input or by \<open>65535\<close>, and the size of the input is itself
  an \<open>int\<close> (\<open>const int size\<close>), so none of them leaves the 32-bit range. The
  accumulator of \<open>RunLength::Set\<close> is different: the decoder computes it from the words
  it is given, and eleven digits are enough to overflow it. It is a 32-bit word
  (\<open>int32_t\<close>), read as a signed number when \<open>Set\<close> returns.
  Counters that only count upwards from zero (\<open>counter_\<close>, \<open>tempCounter_\<close>) are \<open>nat\<close>.
  A \<open>std::list\<close> or a \<open>std::vector\<close> is a list. A member \<open>name_\<close> of a class is the
  field \<open>tbl_name\<close> (Table), \<open>rep_name\<close> (SpeedFirstRepository), \<open>enc_name\<close> or \<open>dec_name\<close>
  of a record, since a name cannot end in an underscore here.
\<close>

type_synonym uint16_t = "16 word"
type_synonym uint8_t = "8 word"
type_synonym int32_t = "32 word"

text \<open>The largest value of an \<open>int\<close>.\<close>

definition INT_MAX :: int where
  "INT_MAX = 0x7FFFFFFF"

subsection \<open>Template parameters\<close>

text \<open>
  The classes \<open>RunLength\<close>, \<open>Differential\<close> and \<open>Table\<close> are templates over
  \<open>\<langle>headerBit, valueBit, header, mask\<rangle>\<close>. The record holds one instantiation.
\<close>

record tparams =
  t_headerBit :: nat
  t_valueBit :: nat
  t_header :: uint8_t
  t_mask :: uint8_t

text \<open>The instantiations of the encoder and the decoder (without \<open>TABLE_FIRST\<close>).\<close>

definition RunLength_T :: tparams where
  "RunLength_T = \<lparr>t_headerBit = 2, t_valueBit = 3, t_header = 0x00, t_mask = 0x07\<rparr>"

definition Differential_T :: tparams where
  "Differential_T = \<lparr>t_headerBit = 1, t_valueBit = 4, t_header = 0x10, t_mask = 0x0F\<rparr>"

definition Table_T :: tparams where
  "Table_T = \<lparr>t_headerBit = 2, t_valueBit = 3, t_header = 0x08, t_mask = 0x07\<rparr>"

subsection \<open>BitShifter\<close>

text \<open>
  \<open>value >> shift\<close> and \<open>value << shift\<close> on a \<open>uint16_t\<close>, the result converted
  back to \<open>uint16_t\<close>.
\<close>

definition BitShifter_Get :: "nat \<Rightarrow> uint16_t \<Rightarrow> uint16_t" where
  "BitShifter_Get shift value = drop_bit shift value"

definition BitShifter_Set :: "nat \<Rightarrow> uint16_t \<Rightarrow> uint16_t" where
  "BitShifter_Set shift value = push_bit shift value"

subsection \<open>RunLength\<close>

definition RunLength_CheckHeader :: "tparams \<Rightarrow> uint8_t \<Rightarrow> bool" where
  "RunLength_CheckHeader p value \<longleftrightarrow> (value AND (NOT (t_mask p))) = t_header p"

text \<open>
  \<open>Get\<close> loops \<open>while (length != 0)\<close>, shifting \<open>length\<close> right arithmetically. For a
  negative \<open>length\<close> the loop never ends, so the loop is a partial function: \<open>None\<close>
  is "does not return".
\<close>

partial_function (option) RunLength_Get_loop :: "tparams \<Rightarrow> int \<Rightarrow> uint8_t list \<Rightarrow> uint8_t list option" where
  "RunLength_Get_loop p len values =
     (if len \<noteq> 0
      then RunLength_Get_loop p (drop_bit (t_valueBit p) len)
             (values @ [(word_of_int (len AND uint (t_mask p)) :: uint8_t) OR t_header p])
      else Some values)"

declare RunLength_Get_loop.simps [code]

definition RunLength_Get :: "tparams \<Rightarrow> int \<Rightarrow> uint8_t list option" where
  "RunLength_Get p len = RunLength_Get_loop p len []"

text \<open>
  \<open>Set\<close> accumulates \<open>length |= (value & mask) << shift\<close> in an \<open>int\<close>. The operand
  \<open>value & mask\<close> is promoted to \<open>int\<close> before the shift, so bits shifted to position
  31 make the result negative and bits shifted beyond it are lost: the digits
  \<open>[0, 0, 0, 0, 0, 0, 0, 0, 0, 0, 2]\<close> give \<open>2 << 30\<close>, which is \<open>INT_MIN\<close>. (For a
  shift count of 32 or more C++ defines no result; here all bits are lost then, too.
  In the output of the encoder only zero digits of padding stand at such a position.)
\<close>

fun RunLength_Set_loop :: "tparams \<Rightarrow> uint8_t list \<Rightarrow> nat \<Rightarrow> int32_t \<Rightarrow> int32_t" where
  "RunLength_Set_loop p [] shift len = len"
| "RunLength_Set_loop p (value # values) shift len =
     RunLength_Set_loop p values (shift + t_valueBit p)
       (len OR push_bit shift (ucast (value AND t_mask p)))"

definition RunLength_Set :: "tparams \<Rightarrow> uint8_t list \<Rightarrow> int" where
  "RunLength_Set p values = sint (RunLength_Set_loop p values 0 0)"

subsection \<open>Differential\<close>

definition Differential_MaxValue :: "tparams \<Rightarrow> int" where
  "Differential_MaxValue p = push_bit (t_valueBit p - 1) 1"

definition Differential_CheckHeader :: "tparams \<Rightarrow> uint8_t \<Rightarrow> bool" where
  "Differential_CheckHeader p value \<longleftrightarrow> (value AND (NOT (t_mask p))) = t_header p"

definition Differential_Sub :: "uint16_t \<Rightarrow> uint16_t \<Rightarrow> int" where
  "Differential_Sub previous current = uint current - uint previous"

definition Differential_IsValid :: "tparams \<Rightarrow> int \<Rightarrow> bool" where
  "Differential_IsValid p diff \<longleftrightarrow> \<bar>diff\<bar> \<le> Differential_MaxValue p \<and> diff \<noteq> 0"

definition Differential_Get :: "tparams \<Rightarrow> int \<Rightarrow> uint8_t" where
  "Differential_Get p diff =
     (let value = (word_of_int (if diff < 0 then diff + Differential_MaxValue p
                                else diff + (Differential_MaxValue p - 1)) :: uint8_t)
      in value OR t_header p)"

definition Differential_Set :: "tparams \<Rightarrow> uint8_t \<Rightarrow> int" where
  "Differential_Set p value =
     (let diff = uint (value AND t_mask p)
      in if diff < Differential_MaxValue p then diff - Differential_MaxValue p
         else diff - (Differential_MaxValue p - 1))"

definition Differential_Add :: "uint16_t \<Rightarrow> int \<Rightarrow> uint16_t" where
  "Differential_Add previous diff = word_of_int (uint previous + diff)"

subsection \<open>Raw15bit\<close>

definition Raw15bit_Get :: "uint16_t \<Rightarrow> uint16_t" where
  "Raw15bit_Get value = 0x8000 OR value"

definition Raw15bit_Set :: "uint16_t \<Rightarrow> uint16_t" where
  "Raw15bit_Set value = 0x7FFF AND value"

definition Raw15bit_IsValid :: "uint16_t \<Rightarrow> bool" where
  "Raw15bit_IsValid value \<longleftrightarrow> (value AND 0x8000) \<noteq> 0"

subsection \<open>Chunker\<close>

definition Chunker_Get :: "uint16_t \<Rightarrow> uint8_t \<times> uint8_t \<times> uint8_t" where
  "Chunker_Get value =
     (ucast (value AND 0x1F), ucast (drop_bit 5 value AND 0x1F), ucast (drop_bit 10 value AND 0x1F))"

definition Chunker_Set :: "uint8_t \<Rightarrow> uint8_t \<Rightarrow> uint8_t \<Rightarrow> uint16_t" where
  "Chunker_Set first second third =
     ucast first OR push_bit 5 (ucast second) OR push_bit 10 (ucast third)"

subsection \<open>Table\<close>

text \<open>
  The table is a \<open>std::vector<uint16_t>\<close> of \<open>TableSize = 1 << valueBit\<close> entries,
  all \<open>0xFFFF\<close> at construction. \<open>Refer\<close> and \<open>Insert\<close> index it with
  \<open>operator[]\<close>, which is not checked; every hash the codec passes comes from \<open>Hash\<close>
  or \<open>Set\<close>, which mask it below \<open>TableSize\<close> (lemmas \<open>Table_Hash_in_range\<close> and
  \<open>Table_Set_in_range\<close>).
\<close>

record Table =
  tbl_ref :: "uint16_t list"
  tbl_hashBit :: nat

definition Table_TableSize :: "tparams \<Rightarrow> nat" where
  "Table_TableSize p = push_bit (t_valueBit p) 1"

definition Table_new :: "tparams \<Rightarrow> nat \<Rightarrow> Table" where
  "Table_new p hashBit = \<lparr>tbl_ref = replicate (Table_TableSize p) 0xFFFF, tbl_hashBit = hashBit\<rparr>"

definition Table_CheckHeader :: "tparams \<Rightarrow> uint8_t \<Rightarrow> bool" where
  "Table_CheckHeader p value \<longleftrightarrow> (value AND (NOT (t_mask p))) = t_header p"

definition Table_Hash :: "tparams \<Rightarrow> Table \<Rightarrow> uint16_t \<Rightarrow> uint8_t" where
  "Table_Hash p t value = ucast (drop_bit (tbl_hashBit t) value AND ucast (t_mask p))"

definition Table_Set :: "tparams \<Rightarrow> uint8_t \<Rightarrow> uint8_t" where
  "Table_Set p value = (let hash = value AND t_mask p in hash)"

definition Table_Refer :: "Table \<Rightarrow> uint8_t \<Rightarrow> uint16_t" where
  "Table_Refer t hash = tbl_ref t ! unat hash"

definition Table_Insert :: "Table \<Rightarrow> uint8_t \<Rightarrow> uint16_t \<Rightarrow> Table" where
  "Table_Insert t hash value = t\<lparr>tbl_ref := (tbl_ref t)[unat hash := value]\<rparr>"

definition Table_Get :: "tparams \<Rightarrow> uint8_t \<Rightarrow> uint8_t" where
  "Table_Get p hash = t_header p OR hash"

subsection \<open>SpeedFirstRepository\<close>

text \<open>
  The repository writes with \<open>buffer_[counter_++] = value\<close> into a vector of \<open>maxSize\<close>
  words and walks \<open>temp_\<close> with an iterator. Neither is checked in C++; the model
  returns an error where the index or the iterator would leave the container.
\<close>

datatype error = OutOfBounds | IteratorPastEnd

record SpeedFirstRepository =
  rep_buffer :: "uint16_t list"
  rep_counter :: nat
  rep_temp :: "uint8_t list"
  rep_tempCounter :: nat

definition SpeedFirstRepository_new :: "nat \<Rightarrow> SpeedFirstRepository" where
  "SpeedFirstRepository_new maxSize =
     \<lparr>rep_buffer = replicate maxSize 0, rep_counter = 0, rep_temp = [], rep_tempCounter = 0\<rparr>"

text \<open>The statement \<open>buffer_[counter_++] = value\<close>.\<close>

definition Repository_write :: "uint16_t \<Rightarrow> SpeedFirstRepository \<Rightarrow> error + SpeedFirstRepository" where
  "Repository_write value r =
     (if rep_counter r < length (rep_buffer r)
      then Inr (r\<lparr>rep_buffer := (rep_buffer r)[rep_counter r := value], rep_counter := rep_counter r + 1\<rparr>)
      else Inl OutOfBounds)"

text \<open>
  The \<open>while (tempCounter_ >= 3)\<close> loop of \<open>Flush\<close>; the first argument is what the
  iterator \<open>ite\<close> still has before it.
\<close>

fun Flush_loop :: "uint8_t list \<Rightarrow> SpeedFirstRepository \<Rightarrow> error + (uint8_t list \<times> SpeedFirstRepository)" where
  "Flush_loop (first # second # third # ite) r =
     (if rep_tempCounter r \<ge> 3
      then (case Repository_write (Chunker_Set first second third) r of
              Inl e \<Rightarrow> Inl e
            | Inr r' \<Rightarrow> Flush_loop ite (r'\<lparr>rep_tempCounter := rep_tempCounter r' - 3\<rparr>))
      else Inr (first # second # third # ite, r))"
| "Flush_loop ite r = (if rep_tempCounter r \<ge> 3 then Inl IteratorPastEnd else Inr (ite, r))"

text \<open>
  The rest of \<open>Flush\<close>: \<open>fst3\<close> is the array \<open>fst[3] = {0}\<close> with its first
  \<open>tempCounter_\<close> entries read from the iterator.
\<close>

definition Repository_Flush :: "SpeedFirstRepository \<Rightarrow> error + SpeedFirstRepository" where
  "Repository_Flush r =
     (case Flush_loop (rep_temp r) r of
        Inl e \<Rightarrow> Inl e
      | Inr (ite, r1) \<Rightarrow>
          (case (if rep_tempCounter r1 > 0
                 then (if length ite < rep_tempCounter r1 then Inl IteratorPastEnd
                       else (let fst3 = take (rep_tempCounter r1) ite @ replicate (3 - rep_tempCounter r1) 0
                             in Repository_write (Chunker_Set (fst3 ! 0) (fst3 ! 1) (fst3 ! 2))
                                  (r1\<lparr>rep_tempCounter := 0\<rparr>)))
                 else Inr r1) of
             Inl e \<Rightarrow> Inl e
           | Inr r2 \<Rightarrow> Inr (r2\<lparr>rep_temp := []\<rparr>)))"

text \<open>The two overloads of \<open>Set\<close>: \<open>Set(uint16_t)\<close> and \<open>Set(uint8_t)\<close>.\<close>

definition Repository_Set16 :: "uint16_t \<Rightarrow> SpeedFirstRepository \<Rightarrow> error + SpeedFirstRepository" where
  "Repository_Set16 value r =
     (case (if rep_tempCounter r > 0 then Repository_Flush r else Inr r) of
        Inl e \<Rightarrow> Inl e
      | Inr r' \<Rightarrow> Repository_write value r')"

definition Repository_Set8 :: "uint8_t \<Rightarrow> SpeedFirstRepository \<Rightarrow> SpeedFirstRepository" where
  "Repository_Set8 value r = r\<lparr>rep_temp := rep_temp r @ [value], rep_tempCounter := rep_tempCounter r + 1\<rparr>"

definition Repository_GetSize :: "SpeedFirstRepository \<Rightarrow> nat" where
  "Repository_GetSize r = rep_counter r"

text \<open>
  \<open>Get()\<close> of the encoder and of the decoder returns \<open>GetIterator()\<close> and \<open>GetSize()\<close>;
  what the caller reads through them is the first \<open>counter_\<close> words of the buffer.
\<close>

definition Repository_Get :: "SpeedFirstRepository \<Rightarrow> uint16_t list" where
  "Repository_Get r = take (Repository_GetSize r) (rep_buffer r)"

subsection \<open>QOI15Encoder\<close>

text \<open>
  The state of the constructor's loop: the members \<open>table_\<close> and \<open>repository_\<close> and
  the locals \<open>previous\<close> and \<open>runLength\<close>. A result is \<open>None\<close> when the code does not
  return, \<open>Some (Inl e)\<close> when it leaves a container, \<open>Some (Inr s)\<close> otherwise. The
  counters of \<open>ENABLE_STATICS\<close> are only printed and are left out.
\<close>

record Encoder =
  enc_table :: Table
  enc_repository :: SpeedFirstRepository
  enc_previous :: uint16_t
  enc_runLength :: int

definition Encoder_new :: "nat \<Rightarrow> Encoder" where
  "Encoder_new maxSize =
     \<lparr>enc_table = Table_new Table_T 1, enc_repository = SpeedFirstRepository_new maxSize,
      enc_previous = 0xFFFF, enc_runLength = 0\<rparr>"

text \<open>The block \<open>if (runLength != 0) { ... }\<close>, which stands twice in the constructor.\<close>

definition Encoder_flushRun :: "Encoder \<Rightarrow> Encoder option" where
  "Encoder_flushRun s =
     (if enc_runLength s \<noteq> 0
      then (case RunLength_Get RunLength_T (enc_runLength s) of
              None \<Rightarrow> None
            | Some runValues \<Rightarrow>
                Some (s\<lparr>enc_repository := fold Repository_Set8 runValues (enc_repository s),
                        enc_runLength := 0\<rparr>))
      else Some s)"

text \<open>The body of the \<open>for\<close> loop, for the sample \<open>buffer[i]\<close>.\<close>

definition Encoder_step :: "nat \<Rightarrow> uint16_t \<Rightarrow> Encoder \<Rightarrow> (error + Encoder) option" where
  "Encoder_step shift sample s =
     (let current = BitShifter_Get shift sample in
      if enc_previous s = current
      then Some (Inr (s\<lparr>enc_runLength := enc_runLength s + 1\<rparr>))
      else
        (case Encoder_flushRun s of
           None \<Rightarrow> None
         | Some s1 \<Rightarrow>
             (let diff = Differential_Sub (enc_previous s1) current in
              if Differential_IsValid Differential_T diff
              then (let value = Differential_Get Differential_T diff in
                    Some (Inr (s1\<lparr>enc_repository := Repository_Set8 value (enc_repository s1),
                                  enc_previous := current\<rparr>)))
              else
                (let hash = Table_Hash Table_T (enc_table s1) current in
                 if Table_Refer (enc_table s1) hash = current
                 then (let value = Table_Get Table_T hash in
                       Some (Inr (s1\<lparr>enc_repository := Repository_Set8 value (enc_repository s1),
                                     enc_previous := current\<rparr>)))
                 else
                   (case Repository_Set16 (Raw15bit_Get current) (enc_repository s1) of
                      Inl e \<Rightarrow> Some (Inl e)
                    | Inr r \<Rightarrow>
                        Some (Inr (s1\<lparr>enc_table := Table_Insert (enc_table s1) hash current,
                                      enc_repository := r, enc_previous := current\<rparr>)))))))"

fun Encoder_loop :: "nat \<Rightarrow> uint16_t list \<Rightarrow> Encoder \<Rightarrow> (error + Encoder) option" where
  "Encoder_loop shift [] s = Some (Inr s)"
| "Encoder_loop shift (sample # buffer) s =
     (case Encoder_step shift sample s of
        None \<Rightarrow> None
      | Some (Inl e) \<Rightarrow> Some (Inl e)
      | Some (Inr s') \<Rightarrow> Encoder_loop shift buffer s')"

text \<open>
  The constructor \<open>QOI15Encoder<internalShift>(buffer, size)\<close>: \<open>buffer\<close> is the list of
  the \<open>size\<close> samples.
\<close>

definition QOI15Encoder :: "nat \<Rightarrow> uint16_t list \<Rightarrow> (error + Encoder) option" where
  "QOI15Encoder internalShift buffer =
     (case Encoder_loop internalShift buffer (Encoder_new (length buffer)) of
        None \<Rightarrow> None
      | Some (Inl e) \<Rightarrow> Some (Inl e)
      | Some (Inr s) \<Rightarrow>
          (case Encoder_flushRun s of
             None \<Rightarrow> None
           | Some s1 \<Rightarrow>
               (case Repository_Flush (enc_repository s1) of
                  Inl e \<Rightarrow> Some (Inl e)
                | Inr r \<Rightarrow> Some (Inr (s1\<lparr>enc_repository := r\<rparr>)))))"

definition Encoder_Get :: "Encoder \<Rightarrow> uint16_t list" where
  "Encoder_Get s = Repository_Get (enc_repository s)"

text \<open>Constructing the encoder and reading its output with \<open>Get()\<close>.\<close>

definition encode :: "nat \<Rightarrow> uint16_t list \<Rightarrow> (error + uint16_t list) option" where
  "encode internalShift buffer = map_option (map_sum id Encoder_Get) (QOI15Encoder internalShift buffer)"

subsection \<open>QOI15Decoder\<close>

text \<open>
  The members \<open>table_\<close> and \<open>repository_\<close> and the locals \<open>previous\<close> and
  \<open>runLengthValues\<close>. The local \<open>leftovers\<close> and the position \<open>counter\<close> in the input
  are arguments of the loop. The decoder's \<open>BitShifter\<close> is \<open>BitShifter<1>\<close>.
\<close>

record Decoder =
  dec_table :: Table
  dec_repository :: SpeedFirstRepository
  dec_previous :: uint16_t
  dec_runLengthValues :: "uint8_t list"

definition Decoder_new :: "nat \<Rightarrow> Decoder" where
  "Decoder_new outputSize =
     \<lparr>dec_table = Table_new Table_T 1, dec_repository = SpeedFirstRepository_new outputSize,
      dec_previous = 0xFFFF, dec_runLengthValues = []\<rparr>"

text \<open>The loop \<open>for (i = 0; i < length; ++i) repository_.Set(value)\<close>.\<close>

fun Repository_Set16_times :: "nat \<Rightarrow> uint16_t \<Rightarrow> SpeedFirstRepository \<Rightarrow> error + SpeedFirstRepository" where
  "Repository_Set16_times 0 value r = Inr r"
| "Repository_Set16_times (Suc n) value r =
     (case Repository_Set16 value r of
        Inl e \<Rightarrow> Inl e
      | Inr r' \<Rightarrow> Repository_Set16_times n value r')"

text \<open>The block \<open>if (runLengthValues.size() > 0) { ... }\<close>, which stands three times.\<close>

definition Decoder_flushRun :: "Decoder \<Rightarrow> error + Decoder" where
  "Decoder_flushRun s =
     (if length (dec_runLengthValues s) > 0
      then (let len = RunLength_Set RunLength_T (dec_runLengthValues s) in
            case Repository_Set16_times (nat len) (BitShifter_Set 1 (dec_previous s)) (dec_repository s) of
              Inl e \<Rightarrow> Inl e
            | Inr r \<Rightarrow> Inr (s\<lparr>dec_repository := r, dec_runLengthValues := []\<rparr>))
      else Inr s)"

text \<open>One sub-codeword taken from the front of \<open>leftovers\<close>.\<close>

definition Decoder_leftover :: "uint8_t \<Rightarrow> Decoder \<Rightarrow> error + Decoder" where
  "Decoder_leftover value s =
     (case (if RunLength_CheckHeader RunLength_T value
            then Inr (s\<lparr>dec_runLengthValues := dec_runLengthValues s @ [value]\<rparr>)
            else Decoder_flushRun s) of
        Inl e \<Rightarrow> Inl e
      | Inr s1 \<Rightarrow>
          (case (if Differential_CheckHeader Differential_T value
                 then (let diff = Differential_Set Differential_T value;
                           current = Differential_Add (dec_previous s1) diff
                       in case Repository_Set16 (BitShifter_Set 1 current) (dec_repository s1) of
                            Inl e \<Rightarrow> Inl e
                          | Inr r \<Rightarrow> Inr (s1\<lparr>dec_repository := r, dec_previous := current\<rparr>))
                 else Inr s1) of
             Inl e \<Rightarrow> Inl e
           | Inr s2 \<Rightarrow>
               (if Table_CheckHeader Table_T value
                then (let hash = Table_Set Table_T value;
                          current = Table_Refer (dec_table s2) hash
                      in case Repository_Set16 (BitShifter_Set 1 current) (dec_repository s2) of
                           Inl e \<Rightarrow> Inl e
                         | Inr r \<Rightarrow> Inr (s2\<lparr>dec_repository := r, dec_previous := current\<rparr>))
                else Inr s2)))"

text \<open>One literal container read from the input.\<close>

definition Decoder_literal :: "uint16_t \<Rightarrow> Decoder \<Rightarrow> error + Decoder" where
  "Decoder_literal value s =
     (case Decoder_flushRun s of
        Inl e \<Rightarrow> Inl e
      | Inr s1 \<Rightarrow>
          (let current = Raw15bit_Set value;
               hash = Table_Hash Table_T (dec_table s1) current;
               t = Table_Insert (dec_table s1) hash current
           in case Repository_Set16 (BitShifter_Set 1 current) (dec_repository s1) of
                Inl e \<Rightarrow> Inl e
              | Inr r \<Rightarrow> Inr (s1\<lparr>dec_table := t, dec_repository := r, dec_previous := current\<rparr>)))"

text \<open>
  The loop \<open>while (counter < size || leftovers.size() > 0)\<close>: the first argument is the
  input from position \<open>counter\<close> on, the second is \<open>leftovers\<close>.
\<close>

fun Decoder_loop :: "uint16_t list \<Rightarrow> uint8_t list \<Rightarrow> Decoder \<Rightarrow> error + Decoder" where
  "Decoder_loop buffer (value # leftovers) s =
     (case Decoder_leftover value s of
        Inl e \<Rightarrow> Inl e
      | Inr s' \<Rightarrow> Decoder_loop buffer leftovers s')"
| "Decoder_loop [] [] s = Inr s"
| "Decoder_loop (value # buffer) [] s =
     (if Raw15bit_IsValid value
      then (case Decoder_literal value s of
              Inl e \<Rightarrow> Inl e
            | Inr s' \<Rightarrow> Decoder_loop buffer [] s')
      else (case Chunker_Get value of
              (first, second, third) \<Rightarrow> Decoder_loop buffer [first, second, third] s))"

text \<open>The constructor \<open>QOI15Decoder(buffer, size, outputSize)\<close>.\<close>

definition QOI15Decoder :: "uint16_t list \<Rightarrow> nat \<Rightarrow> error + Decoder" where
  "QOI15Decoder buffer outputSize =
     (case Decoder_loop buffer [] (Decoder_new outputSize) of
        Inl e \<Rightarrow> Inl e
      | Inr s \<Rightarrow> Decoder_flushRun s)"

definition Decoder_Get :: "Decoder \<Rightarrow> uint16_t list" where
  "Decoder_Get s = Repository_Get (dec_repository s)"

text \<open>Constructing the decoder and reading its output with \<open>Get()\<close>.\<close>

definition decode :: "uint16_t list \<Rightarrow> nat \<Rightarrow> error + uint16_t list" where
  "decode buffer outputSize = map_sum id Decoder_Get (QOI15Decoder buffer outputSize)"

section \<open>Specification-level functions\<close>

text \<open>
  The little-endian base-8 digits of a number, as the specification describes the output
  of \<open>RunLength::Get\<close>; \<open>RunLength_Get\<close> above is the code.
\<close>

fun base8_digits :: "nat \<Rightarrow> uint8_t list" where
  "base8_digits n = (if n = 0 then [] else word_of_nat (n mod 8) # base8_digits (n div 8))"

declare base8_digits.simps [simp del]

text \<open>
  What the repository receives is a sequence of calls of its two \<open>Set\<close> overloads:
  \<open>Sub v\<close> is \<open>Set(uint8_t v)\<close>, a 5-bit sub-codeword, and \<open>Lit w\<close> is
  \<open>Set(uint16_t w)\<close>, a literal word.
\<close>

datatype item = Sub uint8_t | Lit uint16_t

fun Repository_feed :: "item list \<Rightarrow> SpeedFirstRepository \<Rightarrow> error + SpeedFirstRepository" where
  "Repository_feed [] r = Inr r"
| "Repository_feed (Sub v # items) r = Repository_feed items (Repository_Set8 v r)"
| "Repository_feed (Lit w # items) r =
     (case Repository_Set16 w r of
        Inl e \<Rightarrow> Inl e
      | Inr r' \<Rightarrow> Repository_feed items r')"

text \<open>
  The packing the specification describes: three sub-codewords to a container, a last
  group of one or two padded with zeros.
\<close>

fun chunks :: "uint8_t list \<Rightarrow> uint16_t list" where
  "chunks (first # second # third # rest) = Chunker_Set first second third # chunks rest"
| "chunks [first, second] = [Chunker_Set first second 0]"
| "chunks [first] = [Chunker_Set first 0 0]"
| "chunks [] = []"

text \<open>
  The output words for a sequence of calls, given the pending sub-codewords: a literal
  comes after the containers of what is pending, and the end flushes what is pending.
\<close>

fun pack_items :: "uint8_t list \<Rightarrow> item list \<Rightarrow> uint16_t list" where
  "pack_items pending [] = chunks pending"
| "pack_items pending (Sub v # items) = pack_items (pending @ [v]) items"
| "pack_items pending (Lit w # items) = chunks pending @ w # pack_items [] items"

text \<open>The sequence of words written one after the other with \<open>buffer_[counter_++]\<close>.\<close>

fun Repository_writes :: "uint16_t list \<Rightarrow> SpeedFirstRepository \<Rightarrow> error + SpeedFirstRepository" where
  "Repository_writes [] r = Inr r"
| "Repository_writes (w # ws) r =
     (case Repository_write w r of
        Inl e \<Rightarrow> Inl e
      | Inr r' \<Rightarrow> Repository_writes ws r')"

text \<open>
  The encoder without its repository: the calls of \<open>Set\<close> that one pass of the loop
  body makes, in order, and the state after it (the repository field is left as it is).
\<close>

definition run_items :: "int \<Rightarrow> item list" where
  "run_items runLength = map Sub (base8_digits (nat runLength))"

definition Encoder_emit :: "nat \<Rightarrow> uint16_t \<Rightarrow> Encoder \<Rightarrow> item list \<times> Encoder" where
  "Encoder_emit shift sample s =
     (let current = BitShifter_Get shift sample in
      if enc_previous s = current then ([], s\<lparr>enc_runLength := enc_runLength s + 1\<rparr>)
      else
        (let run = run_items (enc_runLength s);
             s1 = s\<lparr>enc_runLength := 0\<rparr>;
             diff = Differential_Sub (enc_previous s1) current;
             hash = Table_Hash Table_T (enc_table s1) current
         in if Differential_IsValid Differential_T diff
            then (run @ [Sub (Differential_Get Differential_T diff)], s1\<lparr>enc_previous := current\<rparr>)
            else if Table_Refer (enc_table s1) hash = current
            then (run @ [Sub (Table_Get Table_T hash)], s1\<lparr>enc_previous := current\<rparr>)
            else (run @ [Lit (Raw15bit_Get current)],
                  s1\<lparr>enc_table := Table_Insert (enc_table s1) hash current,
                     enc_previous := current\<rparr>)))"

fun Encoder_items :: "nat \<Rightarrow> uint16_t list \<Rightarrow> Encoder \<Rightarrow> item list \<times> Encoder" where
  "Encoder_items shift [] s = ([], s)"
| "Encoder_items shift (sample # buffer) s =
     (case Encoder_emit shift sample s of
        (items, s') \<Rightarrow>
          (case Encoder_items shift buffer s' of
             (items', s'') \<Rightarrow> (items @ items', s'')))"

text \<open>All calls of \<open>Set\<close> of one run of the constructor, the last run included.\<close>

definition QOI15Encoder_items :: "nat \<Rightarrow> uint16_t list \<Rightarrow> item list" where
  "QOI15Encoder_items shift buffer =
     (case Encoder_items shift buffer (Encoder_new (length buffer)) of
        (items, s) \<Rightarrow> items @ run_items (enc_runLength s))"

text \<open>
  The decoder without its repository: what it reads is a sequence of literal words and
  sub-codewords, and each gives the samples it emits and the state after it.
\<close>

definition unpack_word :: "uint16_t \<Rightarrow> item list" where
  "unpack_word w =
     (if Raw15bit_IsValid w then [Lit w]
      else (case Chunker_Get w of (first, second, third) \<Rightarrow> [Sub first, Sub second, Sub third]))"

definition unpack :: "uint16_t list \<Rightarrow> item list" where
  "unpack ws = concat (map unpack_word ws)"

definition run_samples :: "Decoder \<Rightarrow> uint16_t list" where
  "run_samples s =
     replicate (nat (RunLength_Set RunLength_T (dec_runLengthValues s)))
       (BitShifter_Set 1 (dec_previous s))"

fun Decoder_emit :: "item \<Rightarrow> Decoder \<Rightarrow> uint16_t list \<times> Decoder" where
  "Decoder_emit (Sub v) s =
     (if RunLength_CheckHeader RunLength_T v
      then ([], s\<lparr>dec_runLengthValues := dec_runLengthValues s @ [v]\<rparr>)
      else
        (let s1 = s\<lparr>dec_runLengthValues := []\<rparr> in
         if Differential_CheckHeader Differential_T v
         then (let current = Differential_Add (dec_previous s) (Differential_Set Differential_T v)
               in (run_samples s @ [BitShifter_Set 1 current], s1\<lparr>dec_previous := current\<rparr>))
         else if Table_CheckHeader Table_T v
         then (let current = Table_Refer (dec_table s) (Table_Set Table_T v)
               in (run_samples s @ [BitShifter_Set 1 current], s1\<lparr>dec_previous := current\<rparr>))
         else (run_samples s, s1)))"
| "Decoder_emit (Lit w) s =
     (let current = Raw15bit_Set w;
          hash = Table_Hash Table_T (dec_table s) current
      in (run_samples s @ [BitShifter_Set 1 current],
          s\<lparr>dec_table := Table_Insert (dec_table s) hash current,
            dec_previous := current, dec_runLengthValues := []\<rparr>))"

fun Decoder_items :: "item list \<Rightarrow> Decoder \<Rightarrow> uint16_t list \<times> Decoder" where
  "Decoder_items [] s = ([], s)"
| "Decoder_items (i # items) s =
     (case Decoder_emit i s of
        (out, s') \<Rightarrow>
          (case Decoder_items items s' of
             (out', s'') \<Rightarrow> (out @ out', s'')))"

text \<open>All samples the decoder emits for an input, the last run included.\<close>

definition Decoder_samples :: "uint16_t list \<Rightarrow> uint16_t list" where
  "Decoder_samples buffer =
     (case Decoder_items (unpack buffer) (Decoder_new 0) of
        (out, s) \<Rightarrow> out @ run_samples s)"

text \<open>
  Two notions for the proofs about the repository: its invariant, and the repository
  after the words \<open>ws\<close> have been written behind the \<open>counter_\<close> words it holds.
\<close>

definition Repository_inv :: "SpeedFirstRepository \<Rightarrow> bool" where
  "Repository_inv r \<longleftrightarrow> rep_tempCounter r = length (rep_temp r) \<and> rep_counter r \<le> length (rep_buffer r)"

definition appended :: "uint16_t list \<Rightarrow> SpeedFirstRepository \<Rightarrow> SpeedFirstRepository" where
  "appended ws r =
     r\<lparr>rep_buffer := take (rep_counter r) (rep_buffer r) @ ws @ drop (rep_counter r + length ws) (rep_buffer r),
       rep_counter := rep_counter r + length ws\<rparr>"

text \<open>
  The decoder's state after the samples of a pair \<open>(samples, state)\<close> have been written
  to the repository \<open>r\<close>.
\<close>

definition written :: "uint16_t list \<times> Decoder \<Rightarrow> SpeedFirstRepository \<Rightarrow> error + Decoder" where
  "written p r =
     (case Repository_writes (fst p) r of
        Inl e \<Rightarrow> Inl e
      | Inr r' \<Rightarrow> Inr ((snd p)\<lparr>dec_repository := r'\<rparr>))"

text \<open>
  Notions for the round trip: a well-formed item (a sub-codeword of at most 5 bits, a
  literal with bit 15 set), the zero sub-codewords that pad a last group, the samples of
  a pair \<open>(samples, state)\<close> with the pending run of the state, the samples of the run the
  encoder has counted but not yet emitted, the samples the decoder makes of the digits
  of that run, and the relation between the encoder's state
  and the decoder's state when the decoder has read what the encoder has emitted.
\<close>

fun item_ok :: "item \<Rightarrow> bool" where
  "item_ok (Sub v) \<longleftrightarrow> v \<le> 0x1F"
| "item_ok (Lit w) \<longleftrightarrow> Raw15bit_IsValid w"

definition padding :: "uint8_t list \<Rightarrow> uint8_t list" where
  "padding pending = replicate ((3 - length pending mod 3) mod 3) 0"

definition related :: "Encoder \<Rightarrow> Decoder \<Rightarrow> bool" where
  "related e d \<longleftrightarrow>
     dec_table d = enc_table e \<and> dec_previous d = enc_previous e
     \<and> dec_runLengthValues d = [] \<and> 0 \<le> enc_runLength e"

definition pending_run :: "Encoder \<Rightarrow> uint16_t list" where
  "pending_run e = replicate (nat (enc_runLength e)) (BitShifter_Set 1 (enc_previous e))"

definition decoded_run :: "Encoder \<Rightarrow> uint16_t list" where
  "decoded_run e =
     replicate (nat (RunLength_Set RunLength_T (base8_digits (nat (enc_runLength e)))))
       (BitShifter_Set 1 (enc_previous e))"

definition final :: "uint16_t list \<times> Decoder \<Rightarrow> uint16_t list" where
  "final p = fst p @ run_samples (snd p)"

text \<open>
  Notions for the hash table: the 15-bit values of the literal containers of a word
  sequence, in order; the same for a sequence of calls; and a table after the insertion
  of such values, each at its hash, as the encoder and the decoder insert a literal.
\<close>

definition literals :: "uint16_t list \<Rightarrow> uint16_t list" where
  "literals ws = map Raw15bit_Set (filter Raw15bit_IsValid ws)"

definition Table_inserts :: "Table \<Rightarrow> uint16_t list \<Rightarrow> Table" where
  "Table_inserts t cs = foldl (\<lambda>t c. Table_Insert t (Table_Hash Table_T t c) c) t cs"

fun item_literals :: "item list \<Rightarrow> uint16_t list" where
  "item_literals [] = []"
| "item_literals (Sub v # items) = item_literals items"
| "item_literals (Lit w # items) = Raw15bit_Set w # item_literals items"

text \<open>
  In a sequence of calls, every zero-valued sub-codeword is followed at once by a
  sub-codeword with the run-length tag.
\<close>

fun zeros_followed :: "item list \<Rightarrow> bool" where
  "zeros_followed [] \<longleftrightarrow> True"
| "zeros_followed (i # items) \<longleftrightarrow>
     (i \<noteq> Sub 0 \<or> (\<exists>v rest. items = Sub v # rest \<and> RunLength_CheckHeader RunLength_T v))
     \<and> zeros_followed items"

text \<open>
  The words a sequence of calls has written before the final flush, and the
  sub-codewords still pending after it.
\<close>

fun feed_written :: "uint8_t list \<Rightarrow> item list \<Rightarrow> uint16_t list" where
  "feed_written pending [] = []"
| "feed_written pending (Sub v # items) = feed_written (pending @ [v]) items"
| "feed_written pending (Lit w # items) = chunks pending @ w # feed_written [] items"

fun feed_pending :: "uint8_t list \<Rightarrow> item list \<Rightarrow> uint8_t list" where
  "feed_pending pending [] = pending"
| "feed_pending pending (Sub v # items) = feed_pending (pending @ [v]) items"
| "feed_pending pending (Lit w # items) = feed_pending [] items"

section \<open>Properties of the leaf components\<close>

lemma Differential_MaxValue_T [simp]: "Differential_MaxValue Differential_T = 8"
  by (simp add: Differential_MaxValue_def Differential_T_def)

subsection \<open>RunLength\<close>

lemma recompose8:
  "push_bit s (int (m mod 8)) OR push_bit (s + 3) (int (m div 8)) = push_bit s (int m)"
proof -
  have "int (m mod 8) OR push_bit 3 (int (m div 8)) = int m"
  proof -
    have a: "int (m mod 8) = take_bit 3 (int m)" by (simp add: take_bit_eq_mod zmod_int)
    have b: "int (m div 8) = drop_bit 3 (int m)" by (simp add: drop_bit_eq_div zdiv_int)
    show ?thesis unfolding a b
    proof (rule bit_eqI)
      fix k
      show "bit (take_bit 3 (int m) OR push_bit 3 (drop_bit 3 (int m))) k = bit (int m) k"
        by (cases "k < 3") (simp_all add: bit_simps not_less)
    qed
  qed
  then have "push_bit s (int (m mod 8) OR push_bit 3 (int (m div 8))) = push_bit s (int m)"
    by simp
  then show ?thesis by (simp add: push_bit_or push_bit_push_bit add.commute)
qed

lemma digit_low: "uint ((word_of_nat (m mod 8) :: uint8_t) AND 7) = int (m mod 8)"
proof -
  have "m mod 8 < 8" by simp
  then have "m mod 8 \<in> {0, 1, 2, 3, 4, 5, 6, 7}" by auto
  then show ?thesis by auto
qed

lemma recompose8_word:
  "push_bit s (word_of_int (int (m mod 8))) OR push_bit (s + 3) (word_of_int (int (m div 8)))
     = (push_bit s (word_of_int (int m)) :: int32_t)"
proof -
  have "(word_of_int (push_bit s (int (m mod 8)) OR push_bit (s + 3) (int (m div 8))) :: int32_t)
      = word_of_int (push_bit s (int m))"
    by (simp only: recompose8)
  then show ?thesis by (simp only: of_int_or_eq of_int_push_bit)
qed

lemma digit_ucast:
  "(ucast ((word_of_nat (m mod 8) :: uint8_t) AND 7) :: int32_t) = word_of_int (int (m mod 8))"
proof -
  have "(ucast ((word_of_nat (m mod 8) :: uint8_t) AND 7) :: int32_t)
      = word_of_int (uint ((word_of_nat (m mod 8) :: uint8_t) AND 7))"
    by (simp only: ucast_eq)
  then show ?thesis by (simp only: digit_low)
qed

lemma RunLength_Set_loop_digits:
  "RunLength_Set_loop RunLength_T (base8_digits m) s acc = acc OR push_bit s (word_of_int (int m))"
proof (induction m arbitrary: s acc rule: base8_digits.induct)
  case (1 n)
  show ?case
  proof (cases "n = 0")
    case True
    then show ?thesis by (simp add: base8_digits.simps)
  next
    case False
    have "RunLength_Set_loop RunLength_T (base8_digits n) s acc =
        RunLength_Set_loop RunLength_T (base8_digits (n div 8)) (s + 3)
          (acc OR push_bit s (word_of_int (int (n mod 8))))"
      using False digit_ucast [of n]
      by (subst base8_digits.simps) (simp add: RunLength_T_def)
    also have "\<dots> = (acc OR push_bit s (word_of_int (int (n mod 8))))
        OR push_bit (s + 3) (word_of_int (int (n div 8)))"
      using 1 [OF False] by simp
    also have "\<dots> = acc OR push_bit s (word_of_int (int n))"
      by (simp only: or.assoc recompose8_word)
    finally show ?thesis .
  qed
qed

lemma digit_of_int:
  assumes "0 \<le> n"
  shows "(word_of_int (n AND 7) :: uint8_t) OR 0 = word_of_nat (nat n mod 8)"
proof -
  have "n AND 7 = take_bit 3 n" by (simp add: take_bit_eq_mask mask_eq_exp_minus_1)
  also have "\<dots> = n mod 8" by (simp add: take_bit_eq_mod)
  also have "\<dots> = int (nat n mod 8)" using assms by (simp add: zmod_int)
  finally show ?thesis by simp
qed

lemma RunLength_Get_loop_digits:
  "0 \<le> n \<Longrightarrow> RunLength_Get_loop RunLength_T n vs = Some (vs @ base8_digits (nat n))"
proof (induction "nat n" arbitrary: n vs rule: less_induct)
  case less
  show ?case
  proof (cases "n = 0")
    case True
    then show ?thesis by (simp add: RunLength_Get_loop.simps base8_digits.simps)
  next
    case False
    with less.prems have pos: "0 < n" by simp
    have d: "drop_bit 3 n = n div 8" by (simp add: drop_bit_eq_div)
    have nn: "0 \<le> n div 8" using pos by simp
    have lt: "nat (n div 8) < nat n" using pos by (simp add: nat_less_iff)
    have dv: "nat (n div 8) = nat n div 8" using pos by (simp add: nat_div_distrib)
    have "RunLength_Get_loop RunLength_T n vs =
        RunLength_Get_loop RunLength_T (n div 8) (vs @ [word_of_nat (nat n mod 8)])"
      using False digit_of_int [OF less.prems]
      by (subst RunLength_Get_loop.simps) (simp add: RunLength_T_def d)
    also have "\<dots> = Some ((vs @ [word_of_nat (nat n mod 8)]) @ base8_digits (nat (n div 8)))"
      using less.hyps [OF lt nn] .
    also have "\<dots> = Some (vs @ base8_digits (nat n))"
      using pos by (subst (2) base8_digits.simps) (simp add: dv)
    finally show ?thesis .
  qed
qed

lemma RunLength_Get_digits:
  "0 \<le> n \<Longrightarrow> RunLength_Get RunLength_T n = Some (base8_digits (nat n))"
  by (simp add: RunLength_Get_def RunLength_Get_loop_digits)

lemma RunLength_Set_wraps:
  "RunLength_Set RunLength_T (base8_digits m) = sint (word_of_int (int m) :: int32_t)"
  by (simp add: RunLength_Set_def RunLength_Set_loop_digits)

lemma sint_int32:
  assumes "0 \<le> k" and "k \<le> INT_MAX"
  shows "sint (word_of_int k :: int32_t) = k"
proof -
  have "sint (word_of_int k :: int32_t) = (k + 2 ^ 31) mod 2 ^ 32 - 2 ^ 31"
    unfolding int_word_sint by simp
  also have "(k + 2 ^ 31) mod 2 ^ 32 = k + 2 ^ 31"
    using assms by (intro mod_pos_pos_trivial) (simp_all add: INT_MAX_def)
  finally show ?thesis by simp
qed

lemma sint_int32_le:
  assumes "0 \<le> k"
  shows "sint (word_of_int k :: int32_t) \<le> k"
proof (cases "k \<le> INT_MAX")
  case True
  then show ?thesis using sint_int32 [OF assms] by simp
next
  case False
  have "sint (word_of_int k :: int32_t) < 2 ^ 31"
    using sint_less [of "word_of_int k :: int32_t"] by simp
  then show ?thesis using False by (simp add: INT_MAX_def)
qed

lemma RunLength_Set_digits_le:
  "RunLength_Set RunLength_T (base8_digits m) \<le> int m"
  unfolding RunLength_Set_wraps by (rule sint_int32_le) simp

lemma RunLength_Set_digits:
  "int m \<le> INT_MAX \<Longrightarrow> RunLength_Set RunLength_T (base8_digits m) = int m"
  unfolding RunLength_Set_wraps by (rule sint_int32) simp_all

subsection \<open>Differential\<close>

text \<open>
  C4: for every delta \<open>d\<close> with \<open>1 \<le> |d| \<le> 8\<close>, \<open>Differential::Get\<close> biases \<open>d\<close> to an
  unsigned 4-bit value (\<open>d + 8\<close> if \<open>d < 0\<close>, else \<open>d + 7\<close>) ORed with the tag \<open>0x10\<close>,
  \<open>Differential::Set\<close> takes the low 4 bits and subtracts 8 if they are below 8, else 7,
  and \<open>Set(Get(d)) = d\<close>.
\<close>

theorem Differential_roundtrip:
  assumes "1 \<le> \<bar>d\<bar>" and "\<bar>d\<bar> \<le> 8"
  shows "Differential_Get Differential_T d = word_of_int (if d < 0 then d + 8 else d + 7) OR 0x10
    \<and> Differential_Set Differential_T v =
        (if uint (v AND 0x0F) < 8 then uint (v AND 0x0F) - 8 else uint (v AND 0x0F) - 7)
    \<and> Differential_Set Differential_T (Differential_Get Differential_T d) = d"
proof -
  have "d \<in> {-8, -7, -6, -5, -4, -3, -2, -1, 1, 2, 3, 4, 5, 6, 7, 8}"
    using assms by (simp add: abs_if split: if_splits) presburger+
  then have "Differential_Set Differential_T (Differential_Get Differential_T d) = d"
    by (auto simp: Differential_Set_def Differential_Get_def Differential_T_def
        Differential_MaxValue_def)
  moreover have "Differential_Get Differential_T d =
      word_of_int (if d < 0 then d + 8 else d + 7) OR 0x10"
    by (simp add: Differential_Get_def Differential_T_def Differential_MaxValue_def)
  moreover have "Differential_Set Differential_T v =
      (if uint (v AND 0x0F) < 8 then uint (v AND 0x0F) - 8 else uint (v AND 0x0F) - 7)"
    by (simp add: Differential_Set_def Differential_T_def Differential_MaxValue_def Let_def)
  ultimately show ?thesis by simp
qed

theorem Differential_roundtrip_witness:
  "Differential_Get Differential_T (- 3) = 0x15
     \<and> Differential_Set Differential_T (Differential_Get Differential_T (- 3)) = - 3"
proof -
  have h1: "(1::int) \<le> \<bar>- 3\<bar>" and h2: "\<bar>- 3 :: int\<bar> \<le> 8" by simp_all
  show ?thesis using Differential_roundtrip [OF h1 h2] by simp
qed


section \<open>The repository\<close>

lemma appended_Nil [simp]: "appended [] r = r"
  by (simp add: appended_def)

lemma appended_fields [simp]:
  "rep_temp (appended ws r) = rep_temp r"
  "rep_tempCounter (appended ws r) = rep_tempCounter r"
  "rep_counter (appended ws r) = rep_counter r + length ws"
  by (simp_all add: appended_def)

lemma appended_length [simp]:
  "rep_counter r + length ws \<le> length (rep_buffer r) \<Longrightarrow>
   length (rep_buffer (appended ws r)) = length (rep_buffer r)"
  by (simp add: appended_def)

lemma appended_Get:
  "rep_counter r + length ws \<le> length (rep_buffer r) \<Longrightarrow>
   Repository_Get (appended ws r) = Repository_Get r @ ws"
  by (simp add: appended_def Repository_Get_def Repository_GetSize_def)

lemma appended_appended:
  assumes "rep_counter r + length a + length b \<le> length (rep_buffer r)"
  shows "appended b (appended a r) = appended (a @ b) r"
proof -
  let ?c = "rep_counter r" and ?buf = "rep_buffer r"
  have 1: "take (?c + length a) (take ?c ?buf @ a @ drop (?c + length a) ?buf) = take ?c ?buf @ a"
    using assms by simp
  have 2: "drop (?c + length a + length b) (take ?c ?buf @ a @ drop (?c + length a) ?buf)
      = drop (?c + length a + length b) ?buf"
    using assms by (simp add: add.commute)
  show ?thesis
    using 1 2 by (simp add: appended_def add.assoc)
qed

lemma appended_temp_update [simp]:
  "appended ws (r\<lparr>rep_temp := t\<rparr>) = (appended ws r)\<lparr>rep_temp := t\<rparr>"
  "appended ws (r\<lparr>rep_tempCounter := k\<rparr>) = (appended ws r)\<lparr>rep_tempCounter := k\<rparr>"
  by (simp_all add: appended_def)

lemma Repository_write_appended:
  "rep_counter r < length (rep_buffer r) \<Longrightarrow> Repository_write w r = Inr (appended [w] r)"
  by (simp add: Repository_write_def appended_def upd_conv_take_nth_drop)

lemma Repository_write_full:
  "\<not> rep_counter r < length (rep_buffer r) \<Longrightarrow> Repository_write w r = Inl OutOfBounds"
  by (simp add: Repository_write_def)

lemma Repository_writes_appended:
  "rep_counter r + length ws \<le> length (rep_buffer r) \<Longrightarrow> Repository_writes ws r = Inr (appended ws r)"
proof (induction ws arbitrary: r)
  case Nil
  then show ?case by simp
next
  case (Cons w ws)
  have fit: "rep_counter r < length (rep_buffer r)" using Cons.prems by simp
  have "Repository_writes (w # ws) r = Repository_writes ws (appended [w] r)"
    by (simp add: Repository_write_appended [OF fit])
  also have "\<dots> = Inr (appended ws (appended [w] r))"
    using Cons.prems by (intro Cons.IH) simp
  also have "appended ws (appended [w] r) = appended ([w] @ ws) r"
    using Cons.prems by (intro appended_appended) simp
  finally show ?case by simp
qed

lemma Repository_writes_full:
  "\<not> rep_counter r + length ws \<le> length (rep_buffer r) \<Longrightarrow> rep_counter r \<le> length (rep_buffer r) \<Longrightarrow>
   Repository_writes ws r = Inl OutOfBounds"
proof (induction ws arbitrary: r)
  case Nil
  then show ?case by simp
next
  case (Cons w ws)
  show ?case
  proof (cases "rep_counter r < length (rep_buffer r)")
    case True
    have "Repository_writes (w # ws) r = Repository_writes ws (appended [w] r)"
      by (simp add: Repository_write_appended [OF True])
    also have "\<dots> = Inl OutOfBounds"
      using Cons.prems True by (intro Cons.IH) simp_all
    finally show ?thesis .
  next
    case False
    then show ?thesis by (simp add: Repository_write_full)
  qed
qed

lemma length_chunks_eq: "length (chunks t) = (length t + 2) div 3"
  by (induction t rule: chunks.induct) simp_all

lemma length_chunks: "length (chunks t) \<le> length t"
  by (simp add: length_chunks_eq)

lemma length_chunks_take: "length (chunks (take (3 * (length t div 3)) t)) = length t div 3"
proof -
  have "length (take (3 * (length t div 3)) t) = 3 * (length t div 3)" by simp
  then show ?thesis by (simp only: length_chunks_eq) 
qed

lemma Flush_loop_appended:
  "rep_tempCounter r = length ite \<Longrightarrow> rep_counter r + length ite div 3 \<le> length (rep_buffer r) \<Longrightarrow>
   Flush_loop ite r =
     Inr (drop (3 * (length ite div 3)) ite,
          (appended (chunks (take (3 * (length ite div 3)) ite)) r)\<lparr>rep_tempCounter := length ite mod 3\<rparr>)"
proof (induction ite arbitrary: r rule: chunks.induct)
  case (1 a b c rest)
  let ?w = "Chunker_Set a b c"
  have fit: "rep_counter r < length (rep_buffer r)" using 1 by simp
  have d: "3 * (length (a # b # c # rest) div 3) = Suc (Suc (Suc (3 * (length rest div 3))))"
    by simp presburger
  have e1: "Flush_loop (a # b # c # rest) r =
      Flush_loop rest ((appended [?w] r)\<lparr>rep_tempCounter := length rest\<rparr>)"
    using 1 by (simp add: Repository_write_appended [OF fit])
  have e2: "Flush_loop rest ((appended [?w] r)\<lparr>rep_tempCounter := length rest\<rparr>) = Inr (drop (3 * (length rest div 3)) rest,
      (appended (chunks (take (3 * (length rest div 3)) rest))
         ((appended [?w] r)\<lparr>rep_tempCounter := length rest\<rparr>))\<lparr>rep_tempCounter := length rest mod 3\<rparr>)"
    using 1(2,3) by (intro 1(1)) simp_all
  have e3: "appended (chunks (take (3 * (length rest div 3)) rest)) (appended [?w] r)
      = appended ([?w] @ chunks (take (3 * (length rest div 3)) rest)) r"
  proof (rule appended_appended)
    have "length (chunks (take (3 * (length rest div 3)) rest)) \<le> length rest div 3"
      by (simp add: length_chunks_take)
    then show "rep_counter r + length [?w] + length (chunks (take (3 * (length rest div 3)) rest)) \<le> length (rep_buffer r)"
      using 1(3) by simp
  qed
  show ?case unfolding e1 e2 d by (simp add: e3)
next
  case (2 a b)
  then show ?case by simp
next
  case (3 a)
  then show ?case by simp
next
  case 4
  then show ?case by simp
qed


lemma chunks_take_drop:
  "chunks t = chunks (take (3 * (length t div 3)) t) @ chunks (drop (3 * (length t div 3)) t)"
proof (induction t rule: chunks.induct)
  case (1 a b c rest)
  have d: "3 * (length (a # b # c # rest) div 3) = Suc (Suc (Suc (3 * (length rest div 3))))"
    by simp presburger
  show ?case unfolding d using 1 by simp
qed simp_all

lemma chunks_short:
  "0 < length ite \<Longrightarrow> length ite < 3 \<Longrightarrow>
   chunks ite = [Chunker_Set ((ite @ replicate (3 - length ite) 0) ! 0)
                   ((ite @ replicate (3 - length ite) 0) ! 1) ((ite @ replicate (3 - length ite) 0) ! 2)]"
proof (induction ite rule: chunks.induct)
  case (2 a b)
  then show ?case by simp
next
  case (3 a)
  then show ?case by (simp add: numeral_3_eq_3)
qed simp_all

lemma Flush_tail:
  assumes "0 < length ite" and "length ite < 3" and "rep_counter r < length (rep_buffer r)"
  shows "(let fst3 = take (length ite) ite @ replicate (3 - length ite) 0
          in Repository_write (Chunker_Set (fst3 ! 0) (fst3 ! 1) (fst3 ! 2)) r)
         = Inr (appended (chunks ite) r)"
  using assms by (simp add: chunks_short Repository_write_appended Let_def)

lemma Repository_Flush_appended:
  assumes inv: "Repository_inv r"
    and fit: "rep_counter r + length (chunks (rep_temp r)) \<le> length (rep_buffer r)"
  shows "Repository_Flush r =
     Inr ((appended (chunks (rep_temp r)) r)\<lparr>rep_temp := [], rep_tempCounter := 0\<rparr>)"
proof -
  let ?t = "rep_temp r"
  let ?k = "3 * (length ?t div 3)"
  define full where "full = chunks (take ?k ?t)"
  define ite where "ite = drop ?k ?t"
  define r0 where "r0 = appended full r"
  have tc: "rep_tempCounter r = length ?t" using inv by (simp add: Repository_inv_def)
  have split: "chunks ?t = full @ chunks ite"
    unfolding full_def ite_def by (rule chunks_take_drop)
  have lfull: "length full = length ?t div 3"
    unfolding full_def by (rule length_chunks_take)
  have fit1: "rep_counter r + length ?t div 3 \<le> length (rep_buffer r)"
    using fit split lfull by simp
  have lite: "length ite = length ?t mod 3"
    by (simp add: ite_def minus_mult_div_eq_mod)
  have loop: "Flush_loop ?t r = Inr (ite, r0\<lparr>rep_tempCounter := length ite\<rparr>)"
    using Flush_loop_appended [OF tc fit1] unfolding lite by (simp add: full_def ite_def r0_def)
  have fit2: "rep_counter r + length full + length (chunks ite) \<le> length (rep_buffer r)"
    using fit split by simp
  have app: "appended (chunks ite) r0 = appended (chunks ?t) r"
    unfolding r0_def using appended_appended [OF fit2] split by simp
  show ?thesis
  proof (cases "length ite = 0")
    case True
    then have "chunks ?t = full" using split by simp
    then show ?thesis
      unfolding Repository_Flush_def loop using True by (simp add: r0_def)
  next
    case False
    then have pos: "0 < length ite" by simp
    have lt: "length ite < 3" using lite by simp
    have "length (chunks ite) = 1" using pos lt by (simp add: chunks_short)
    then have fit3: "rep_counter (r0\<lparr>rep_tempCounter := 0\<rparr>) < length (rep_buffer (r0\<lparr>rep_tempCounter := 0\<rparr>))"
      using fit2 by (simp add: r0_def)
    have w: "(let fst3 = take (length ite) ite @ replicate (3 - length ite) 0
          in Repository_write (Chunker_Set (fst3 ! 0) (fst3 ! 1) (fst3 ! 2)) (r0\<lparr>rep_tempCounter := 0\<rparr>))
         = Inr (appended (chunks ite) (r0\<lparr>rep_tempCounter := 0\<rparr>))"
      using Flush_tail [OF pos lt fit3] .
    show ?thesis
      unfolding Repository_Flush_def loop using pos w
      by (simp add: app)
  qed
qed

lemma Repository_Set16_appended:
  assumes inv: "Repository_inv r"
    and fit: "rep_counter r + length (chunks (rep_temp r)) < length (rep_buffer r)"
  shows "Repository_Set16 w r =
     Inr ((appended (chunks (rep_temp r) @ [w]) r)\<lparr>rep_temp := [], rep_tempCounter := 0\<rparr>)"
proof (cases "rep_tempCounter r > 0")
  case True
  have fl: "Repository_Flush r = Inr ((appended (chunks (rep_temp r)) r)\<lparr>rep_temp := [], rep_tempCounter := 0\<rparr>)"
    using Repository_Flush_appended [OF inv] fit by simp
  have "rep_counter r + length (chunks (rep_temp r)) + length [w] \<le> length (rep_buffer r)"
    using fit by simp
  from appended_appended [OF this]
  show ?thesis
    unfolding Repository_Set16_def fl using True fit
    by (simp add: Repository_write_appended)
next
  case False
  then have "rep_temp r = []" and "rep_tempCounter r = 0" using inv by (simp_all add: Repository_inv_def)
  then show ?thesis
    unfolding Repository_Set16_def using fit by (simp add: Repository_write_appended)
qed


lemma Repository_inv_Set8: "Repository_inv r \<Longrightarrow> Repository_inv (Repository_Set8 v r)"
  by (simp add: Repository_inv_def Repository_Set8_def)

lemma Repository_inv_new: "Repository_inv (SpeedFirstRepository_new n)"
  by (simp add: Repository_inv_def SpeedFirstRepository_new_def)

lemma Repository_feed_append:
  "Repository_feed (items @ items') r =
     (case Repository_feed items r of Inl e \<Rightarrow> Inl e | Inr r' \<Rightarrow> Repository_feed items' r')"
proof (induction items arbitrary: r)
  case Nil
  show ?case by simp
next
  case (Cons i items)
  show ?case
  proof (cases i)
    case (Sub v)
    then show ?thesis using Cons by simp
  next
    case (Lit w)
    then show ?thesis using Cons by (simp split: sum.splits)
  qed
qed

lemma Repository_feed_Subs:
  "Repository_feed (map Sub vs @ items) r = Repository_feed items (fold Repository_Set8 vs r)"
  by (induction vs arbitrary: r) simp_all

lemma length_pack_items: "length (pack_items pending items) \<le> length pending + length items"
proof (induction pending items rule: pack_items.induct)
  case (1 pending)
  show ?case by (simp add: length_chunks)
next
  case (2 pending v items)
  then show ?case by simp
next
  case (3 pending w items)
  have "length (chunks pending) \<le> length pending" by (rule length_chunks)
  with 3 show ?case by simp
qed

lemma Repository_feed_Flush:
  assumes "Repository_inv r"
    and "rep_counter r + length (pack_items (rep_temp r) items) \<le> length (rep_buffer r)"
  shows "(case Repository_feed items r of Inl e \<Rightarrow> Inl e | Inr r' \<Rightarrow> Repository_Flush r') =
     Inr ((appended (pack_items (rep_temp r) items) r)\<lparr>rep_temp := [], rep_tempCounter := 0\<rparr>)"
  using assms
proof (induction items arbitrary: r)
  case Nil
  then show ?case by (simp add: Repository_Flush_appended)
next
  case (Cons i items)
  show ?case
  proof (cases i)
    case (Sub v)
    let ?r = "Repository_Set8 v r"
    have inv: "Repository_inv ?r" using Cons.prems(1) by (rule Repository_inv_Set8)
    have fit: "rep_counter ?r + length (pack_items (rep_temp ?r) items) \<le> length (rep_buffer ?r)"
      using Cons.prems(2) Sub by (simp add: Repository_Set8_def)
    show ?thesis
      using Cons.IH [OF inv fit] Sub by (simp add: Repository_Set8_def appended_def)
  next
    case (Lit w)
    let ?ws = "chunks (rep_temp r) @ [w]"
    let ?r = "(appended ?ws r)\<lparr>rep_temp := [], rep_tempCounter := 0\<rparr>"
    have fit0: "rep_counter r + length ?ws + length (pack_items [] items) \<le> length (rep_buffer r)"
      using Cons.prems(2) Lit by simp
    have set16: "Repository_Set16 w r = Inr ?r"
      using Cons.prems(1) fit0 by (intro Repository_Set16_appended) simp_all
    have inv: "Repository_inv ?r"
      using fit0 by (simp add: Repository_inv_def)
    have fit: "rep_counter ?r + length (pack_items (rep_temp ?r) items) \<le> length (rep_buffer ?r)"
      using fit0 by simp
    show ?thesis
      using Cons.IH [OF inv fit] Lit set16 appended_appended [OF fit0] by simp
  qed
qed

section \<open>The encoder and its repository\<close>

lemma Encoder_flushRun_items:
  "0 \<le> enc_runLength s \<Longrightarrow>
   Encoder_flushRun s =
     Some (s\<lparr>enc_repository := fold Repository_Set8 (base8_digits (nat (enc_runLength s))) (enc_repository s),
             enc_runLength := 0\<rparr>)"
  by (cases "enc_runLength s = 0")
     (simp_all add: Encoder_flushRun_def RunLength_Get_digits base8_digits.simps)

lemma Encoder_step_emit:
  assumes "0 \<le> enc_runLength s"
  shows "Encoder_step shift x s =
     Some (case Repository_feed (fst (Encoder_emit shift x s)) (enc_repository s) of
             Inl e \<Rightarrow> Inl e
           | Inr r \<Rightarrow> Inr ((snd (Encoder_emit shift x s))\<lparr>enc_repository := r\<rparr>))"
  unfolding Encoder_step_def Encoder_emit_def Encoder_flushRun_items [OF assms]
  by (simp add: Let_def Repository_feed_Subs run_items_def split: sum.splits)


lemma Encoder_emit_runLength:
  "0 \<le> enc_runLength s \<Longrightarrow> 0 \<le> enc_runLength (snd (Encoder_emit shift x s))"
  by (simp add: Encoder_emit_def Let_def)

lemma Encoder_emit_repository:
  "Encoder_emit shift x (s\<lparr>enc_repository := r\<rparr>) =
     (fst (Encoder_emit shift x s), (snd (Encoder_emit shift x s))\<lparr>enc_repository := r\<rparr>)"
  by (simp add: Encoder_emit_def Let_def)

lemma Encoder_items_Cons:
  "Encoder_items shift (x # xs) s =
     (fst (Encoder_emit shift x s) @ fst (Encoder_items shift xs (snd (Encoder_emit shift x s))),
      snd (Encoder_items shift xs (snd (Encoder_emit shift x s))))"
  by (simp split: prod.splits)

lemma Encoder_items_repository:
  "Encoder_items shift xs (s\<lparr>enc_repository := r\<rparr>) =
     (fst (Encoder_items shift xs s), (snd (Encoder_items shift xs s))\<lparr>enc_repository := r\<rparr>)"
proof (induction xs arbitrary: s)
  case Nil
  show ?case by simp
next
  case (Cons x xs)
  show ?case
    by (simp only: Encoder_items_Cons Encoder_emit_repository Cons.IH fst_conv snd_conv)
qed

lemma Encoder_items_runLength:
  "0 \<le> enc_runLength s \<Longrightarrow> 0 \<le> enc_runLength (snd (Encoder_items shift xs s))"
proof (induction xs arbitrary: s)
  case Nil
  then show ?case by simp
next
  case (Cons x xs)
  from Cons.IH [OF Encoder_emit_runLength [OF Cons.prems]]
  show ?case by (simp only: Encoder_items_Cons snd_conv)
qed

lemma Encoder_loop_items:
  "0 \<le> enc_runLength s \<Longrightarrow>
   Encoder_loop shift xs s =
     Some (case Repository_feed (fst (Encoder_items shift xs s)) (enc_repository s) of
             Inl e \<Rightarrow> Inl e
           | Inr r \<Rightarrow> Inr ((snd (Encoder_items shift xs s))\<lparr>enc_repository := r\<rparr>))"
proof (induction xs arbitrary: s)
  case Nil
  show ?case by simp
next
  case (Cons x xs)
  let ?items = "fst (Encoder_emit shift x s)" and ?s1 = "snd (Encoder_emit shift x s)"
  have rl: "0 \<le> enc_runLength ?s1"
    using Encoder_emit_runLength [OF Cons.prems] .
  show ?case
  proof (cases "Repository_feed ?items (enc_repository s)")
    case (Inl err)
    then show ?thesis
      by (simp add: Encoder_step_emit [OF Cons.prems] Repository_feed_append Encoder_items_Cons
          del: Encoder_items.simps)
  next
    case (Inr r)
    have rl': "0 \<le> enc_runLength (?s1\<lparr>enc_repository := r\<rparr>)" using rl by simp
    show ?thesis
      using Inr Cons.IH [OF rl']
      by (simp add: Encoder_step_emit [OF Cons.prems] Repository_feed_append
          Encoder_items_repository Encoder_items_Cons del: Encoder_items.simps split: sum.splits)
  qed
qed

lemma length_base8_digits: "length (base8_digits n) \<le> n"
proof (induction n rule: base8_digits.induct)
  case (1 n)
  show ?case
  proof (cases "n = 0")
    case True
    then show ?thesis by (simp add: base8_digits.simps)
  next
    case False
    then have "length (base8_digits n) = Suc (length (base8_digits (n div 8)))"
      by (subst base8_digits.simps) simp
    also have "\<dots> \<le> Suc (n div 8)" using 1 [OF False] by simp
    also have "\<dots> \<le> n" using False by presburger
    finally show ?thesis .
  qed
qed

lemma length_run_items: "0 \<le> k \<Longrightarrow> int (length (run_items k)) \<le> k"
  using length_base8_digits [of "nat k"] by (simp add: run_items_def)

lemma length_Encoder_emit:
  "0 \<le> enc_runLength s \<Longrightarrow>
   int (length (fst (Encoder_emit shift x s))) + enc_runLength (snd (Encoder_emit shift x s))
     \<le> enc_runLength s + 1"
  using length_run_items [of "enc_runLength s"]
  by (simp add: Encoder_emit_def Let_def)

lemma length_Encoder_items:
  "0 \<le> enc_runLength s \<Longrightarrow>
   int (length (fst (Encoder_items shift xs s))) + enc_runLength (snd (Encoder_items shift xs s))
     \<le> enc_runLength s + int (length xs)"
proof (induction xs arbitrary: s)
  case Nil
  show ?case by simp
next
  case (Cons x xs)
  let ?items = "fst (Encoder_emit shift x s)" and ?s1 = "snd (Encoder_emit shift x s)"
  have rl: "0 \<le> enc_runLength ?s1"
    using Encoder_emit_runLength [OF Cons.prems] .
  have a: "int (length ?items) + enc_runLength ?s1 \<le> enc_runLength s + 1"
    using length_Encoder_emit [OF Cons.prems] .
  show ?case
    using Cons.IH [OF rl] a by (simp add: Encoder_items_Cons del: Encoder_items.simps)
qed

lemma length_QOI15Encoder_items: "length (QOI15Encoder_items shift xs) \<le> length xs"
proof -
  let ?s0 = "Encoder_new (length xs)"
  obtain items s where e: "Encoder_items shift xs ?s0 = (items, s)"
    by (cases "Encoder_items shift xs ?s0")
  have z: "0 \<le> enc_runLength ?s0" by (simp add: Encoder_new_def)
  have rl: "0 \<le> enc_runLength s" using Encoder_items_runLength [OF z, of shift xs] e by simp
  have "int (length items) + enc_runLength s \<le> int (length xs)"
    using length_Encoder_items [OF z, of shift xs] e by (simp add: Encoder_new_def)
  moreover have "int (length (run_items (enc_runLength s))) \<le> enc_runLength s"
    using rl by (rule length_run_items)
  ultimately show ?thesis by (simp add: QOI15Encoder_items_def e)
qed

lemma QOI15Encoder_pack:
  "QOI15Encoder shift xs =
     Some (Inr ((snd (Encoder_items shift xs (Encoder_new (length xs))))
       \<lparr>enc_repository :=
           (appended (pack_items [] (QOI15Encoder_items shift xs))
              (SpeedFirstRepository_new (length xs)))\<lparr>rep_temp := [], rep_tempCounter := 0\<rparr>,
         enc_runLength := 0\<rparr>))"
proof -
  let ?s0 = "Encoder_new (length xs)"
  let ?r0 = "SpeedFirstRepository_new (length xs)"
  obtain items s where e: "Encoder_items shift xs ?s0 = (items, s)"
    by (cases "Encoder_items shift xs ?s0")
  have z: "0 \<le> enc_runLength ?s0" by (simp add: Encoder_new_def)
  have rl: "0 \<le> enc_runLength s" using Encoder_items_runLength [OF z, of shift xs] e by simp
  let ?all = "items @ run_items (enc_runLength s)"
  have all: "QOI15Encoder_items shift xs = ?all" by (simp add: QOI15Encoder_items_def e)
  have r0: "enc_repository ?s0 = ?r0" by (simp add: Encoder_new_def)
  have "length (pack_items [] ?all) \<le> length ?all"
    using length_pack_items [of "[]" ?all] by simp
  also have "\<dots> \<le> length xs" using length_QOI15Encoder_items [of shift xs] all by simp
  finally have fit: "rep_counter ?r0 + length (pack_items (rep_temp ?r0) ?all) \<le> length (rep_buffer ?r0)"
    by (simp add: SpeedFirstRepository_new_def)
  have ff: "(case Repository_feed ?all ?r0 of Inl e \<Rightarrow> Inl e | Inr r' \<Rightarrow> Repository_Flush r') =
     Inr ((appended (pack_items (rep_temp ?r0) ?all) ?r0)\<lparr>rep_temp := [], rep_tempCounter := 0\<rparr>)"
    using Repository_feed_Flush [OF Repository_inv_new fit] .
  have t0: "rep_temp ?r0 = []" by (simp add: SpeedFirstRepository_new_def)
  have loop: "Encoder_loop shift xs ?s0 =
     Some (case Repository_feed items ?r0 of Inl e \<Rightarrow> Inl e
           | Inr r \<Rightarrow> Inr (s\<lparr>enc_repository := r\<rparr>))"
    unfolding Encoder_loop_items [OF z, of shift xs] e r0 by (simp split: sum.splits)
  show ?thesis
  proof (cases "Repository_feed items ?r0")
    case (Inl err)
    then show ?thesis using ff by (simp add: Repository_feed_append)
  next
    case (Inr r1)
    let ?s1 = "s\<lparr>enc_repository := r1\<rparr>"
    have rl1: "0 \<le> enc_runLength ?s1" using rl by simp
    have fr: "Encoder_flushRun ?s1 =
        Some (?s1\<lparr>enc_repository := fold Repository_Set8 (base8_digits (nat (enc_runLength s))) r1,
                  enc_runLength := 0\<rparr>)"
      using Encoder_flushRun_items [OF rl1] by simp
    have "Repository_Flush (fold Repository_Set8 (base8_digits (nat (enc_runLength s))) r1) =
        Inr ((appended (pack_items (rep_temp ?r0) ?all) ?r0)\<lparr>rep_temp := [], rep_tempCounter := 0\<rparr>)"
      using ff Inr Repository_feed_Subs [of "base8_digits (nat (enc_runLength s))" "[]" r1]
      by (simp add: Repository_feed_append run_items_def)
    then show ?thesis
      unfolding QOI15Encoder_def loop Inr all e t0
      by (simp add: fr)
  qed
qed

lemma encode_pack: "encode shift xs = Some (Inr (pack_items [] (QOI15Encoder_items shift xs)))"
proof -
  have "length (pack_items [] (QOI15Encoder_items shift xs)) \<le> length (QOI15Encoder_items shift xs)"
    using length_pack_items [of "[]" "QOI15Encoder_items shift xs"] by simp
  also have "\<dots> \<le> length xs" by (rule length_QOI15Encoder_items)
  finally have fit: "rep_counter (SpeedFirstRepository_new (length xs))
      + length (pack_items [] (QOI15Encoder_items shift xs))
      \<le> length (rep_buffer (SpeedFirstRepository_new (length xs)))"
    by (simp add: SpeedFirstRepository_new_def)
  have "Repository_Get (appended (pack_items [] (QOI15Encoder_items shift xs))
      (SpeedFirstRepository_new (length xs))) = pack_items [] (QOI15Encoder_items shift xs)"
    using appended_Get [OF fit]
    by (simp add: Repository_Get_def Repository_GetSize_def SpeedFirstRepository_new_def)
  then show ?thesis
    by (simp add: encode_def QOI15Encoder_pack Encoder_Get_def Repository_Get_def
        Repository_GetSize_def)
qed

text \<open>
  C2: for every input of length \<open>size\<close> (and every shift), the constructor of the encoder
  returns without leaving the buffer of \<open>maxSize = size\<close> words (no write
  \<open>buffer_[counter_++]\<close> is out of bounds), and the size it returns is at most \<open>size\<close>.
\<close>

theorem encoder_output_bounded:
  "\<exists>s. QOI15Encoder shift xs = Some (Inr s)
     \<and> length (rep_buffer (enc_repository s)) = length xs
     \<and> Repository_GetSize (enc_repository s) \<le> length xs
     \<and> length (Encoder_Get s) = Repository_GetSize (enc_repository s)"
proof -
  have "length (pack_items [] (QOI15Encoder_items shift xs)) \<le> length (QOI15Encoder_items shift xs)"
    using length_pack_items [of "[]" "QOI15Encoder_items shift xs"] by simp
  also have "\<dots> \<le> length xs" by (rule length_QOI15Encoder_items)
  finally show ?thesis
    by (simp add: QOI15Encoder_pack Encoder_Get_def Repository_Get_def Repository_GetSize_def
        SpeedFirstRepository_new_def)
qed

theorem encoder_output_bounded_witness:
  "\<exists>s. QOI15Encoder 1 [0x1234, 0x1234, 0x1236] = Some (Inr s)
     \<and> length (rep_buffer (enc_repository s)) = 3
     \<and> Repository_GetSize (enc_repository s) \<le> 3
     \<and> length (Encoder_Get s) = Repository_GetSize (enc_repository s)"
  using encoder_output_bounded [of 1 "[0x1234, 0x1234, 0x1236]"] by (simp add: numeral_3_eq_3)


section \<open>The decoder and its repository\<close>


lemma header_RunLength_exclusive:
  assumes "RunLength_CheckHeader RunLength_T v"
  shows "\<not> Differential_CheckHeader Differential_T v" and "\<not> Table_CheckHeader Table_T v"
proof -
  have z: "v AND NOT 7 = 0" using assms by (simp add: RunLength_CheckHeader_def RunLength_T_def)
  have "v AND NOT 15 = (v AND NOT 7) AND NOT 15"
    by (simp add: and.assoc)
  then have "v AND NOT 15 = 0" using z by simp
  then show "\<not> Differential_CheckHeader Differential_T v"
    by (simp add: Differential_CheckHeader_def Differential_T_def)
  show "\<not> Table_CheckHeader Table_T v"
    using z by (simp add: Table_CheckHeader_def Table_T_def)
qed

lemma header_Differential_exclusive:
  assumes "Differential_CheckHeader Differential_T v"
  shows "\<not> Table_CheckHeader Table_T v"
proof
  assume "Table_CheckHeader Table_T v"
  then have t: "v AND NOT 7 = 8" by (simp add: Table_CheckHeader_def Table_T_def)
  have d: "v AND NOT 15 = 16" using assms by (simp add: Differential_CheckHeader_def Differential_T_def)
  have "v AND NOT 15 = (v AND NOT 7) AND NOT 15" by (simp add: and.assoc)
  then show False using t d by simp
qed

lemma Repository_Set16_write:
  "rep_tempCounter r = 0 \<Longrightarrow> Repository_Set16 w r = Repository_write w r"
  by (simp add: Repository_Set16_def)

lemma Repository_write_tempCounter:
  "Repository_write w r = Inr r' \<Longrightarrow> rep_tempCounter r' = rep_tempCounter r"
  by (auto simp: Repository_write_def split: if_splits)

lemma Repository_writes_tempCounter:
  "Repository_writes ws r = Inr r' \<Longrightarrow> rep_tempCounter r' = rep_tempCounter r"
proof (induction ws arbitrary: r)
  case Nil
  then show ?case by simp
next
  case (Cons w ws)
  then show ?case
    by (auto split: sum.splits dest: Repository_write_tempCounter)
qed

lemma Repository_writes_append:
  "Repository_writes (ws @ ws') r =
     (case Repository_writes ws r of Inl e \<Rightarrow> Inl e | Inr r' \<Rightarrow> Repository_writes ws' r')"
  by (induction ws arbitrary: r) (simp_all split: sum.splits)

lemma Repository_Set16_times_writes:
  "rep_tempCounter r = 0 \<Longrightarrow>
   Repository_Set16_times n w r = Repository_writes (replicate n w) r"
proof (induction n arbitrary: r)
  case 0
  show ?case by simp
next
  case (Suc n)
  show ?case
  proof (cases "Repository_write w r")
    case (Inl e)
    then show ?thesis using Suc.prems by (simp add: Repository_Set16_write)
  next
    case (Inr r')
    then have "rep_tempCounter r' = 0"
      using Suc.prems Repository_write_tempCounter by fastforce
    from Suc.IH [OF this] show ?thesis
      using Inr Suc.prems by (simp add: Repository_Set16_write)
  qed
qed

lemma run_samples_repository [simp]: "run_samples (s\<lparr>dec_repository := r\<rparr>) = run_samples s"
  by (simp add: run_samples_def)

lemma RunLength_Set_Nil [simp]: "RunLength_Set p [] = 0"
  by (simp add: RunLength_Set_def)

lemma Decoder_flushRun_writes:
  assumes "rep_tempCounter (dec_repository s) = 0"
  shows "Decoder_flushRun s =
     (case Repository_writes (run_samples s) (dec_repository s) of
        Inl e \<Rightarrow> Inl e
      | Inr r \<Rightarrow> Inr (s\<lparr>dec_repository := r, dec_runLengthValues := []\<rparr>))"
proof (cases "dec_runLengthValues s = []")
  case True
  then show ?thesis by (simp add: Decoder_flushRun_def run_samples_def)
next
  case False
  then show ?thesis
    using assms
    by (simp add: Decoder_flushRun_def run_samples_def Repository_Set16_times_writes Let_def)
qed

lemma Decoder_emit_repository:
  "Decoder_emit i (s\<lparr>dec_repository := r\<rparr>) =
     (fst (Decoder_emit i s), (snd (Decoder_emit i s))\<lparr>dec_repository := r\<rparr>)"
  by (cases i) (simp_all add: Let_def)

lemma Decoder_items_Cons:
  "Decoder_items (i # items) s =
     (fst (Decoder_emit i s) @ fst (Decoder_items items (snd (Decoder_emit i s))),
      snd (Decoder_items items (snd (Decoder_emit i s))))"
  by (simp split: prod.splits)

lemma Decoder_items_repository:
  "Decoder_items items (s\<lparr>dec_repository := r\<rparr>) =
     (fst (Decoder_items items s), (snd (Decoder_items items s))\<lparr>dec_repository := r\<rparr>)"
proof (induction items arbitrary: s)
  case Nil
  show ?case by simp
next
  case (Cons i items)
  show ?case
    by (simp only: Decoder_items_Cons Decoder_emit_repository Cons.IH fst_conv snd_conv)
qed

lemma Decoder_leftover_emit:
  assumes "rep_tempCounter (dec_repository s) = 0"
  shows "Decoder_leftover v s = written (Decoder_emit (Sub v) s) (dec_repository s)"
proof (cases "RunLength_CheckHeader RunLength_T v")
  case True
  then show ?thesis
    using header_RunLength_exclusive [OF True]
    by (simp add: Decoder_leftover_def written_def)
next
  case False
  show ?thesis
  proof (cases "Repository_writes (run_samples s) (dec_repository s)")
    case (Inl e)
    then show ?thesis
      using False
      by (simp add: Decoder_leftover_def written_def Decoder_flushRun_writes [OF assms]
          Repository_writes_append Let_def)
  next
    case (Inr r)
    then have tc: "rep_tempCounter r = 0"
      using assms Repository_writes_tempCounter by fastforce
    show ?thesis
    proof (cases "Differential_CheckHeader Differential_T v")
      case True
      then show ?thesis
        using False Inr header_Differential_exclusive [OF True] tc
        by (simp add: Decoder_leftover_def written_def Decoder_flushRun_writes [OF assms]
          Repository_writes_append Let_def Repository_Set16_write split: sum.splits)
    next
      case nd: False
      then show ?thesis
        using False Inr tc
        by (simp add: Decoder_leftover_def written_def Decoder_flushRun_writes [OF assms]
          Repository_writes_append Let_def Repository_Set16_write split: sum.splits)
    qed
  qed
qed

lemma Decoder_literal_emit:
  assumes "rep_tempCounter (dec_repository s) = 0"
  shows "Decoder_literal w s = written (Decoder_emit (Lit w) s) (dec_repository s)"
proof (cases "Repository_writes (run_samples s) (dec_repository s)")
  case (Inl e)
  then show ?thesis
    by (simp add: Decoder_literal_def written_def Decoder_flushRun_writes [OF assms]
        Repository_writes_append Let_def)
next
  case (Inr r)
  then have tc: "rep_tempCounter r = 0"
    using assms Repository_writes_tempCounter by fastforce
  show ?thesis
    using Inr tc
    by (simp add: Decoder_literal_def written_def Decoder_flushRun_writes [OF assms]
        Repository_writes_append Let_def Repository_Set16_write split: sum.splits)
qed

lemma written_tempCounter:
  "written p r = Inr s' \<Longrightarrow> rep_tempCounter (dec_repository s') = rep_tempCounter r"
  by (auto simp: written_def split: sum.splits dest: Repository_writes_tempCounter)

lemma written_items_Cons:
  "written (Decoder_items (i # items) s) r =
     (case written (Decoder_emit i s) r of
        Inl e \<Rightarrow> Inl e
      | Inr s' \<Rightarrow> written (Decoder_items items s') (dec_repository s'))"
  by (simp add: written_def Decoder_items_Cons Repository_writes_append Decoder_items_repository
      del: Decoder_items.simps split: sum.splits)

lemma Decoder_loop_items:
  "rep_tempCounter (dec_repository s) = 0 \<Longrightarrow>
   Decoder_loop buffer lo s = written (Decoder_items (map Sub lo @ unpack buffer) s) (dec_repository s)"
proof (induction buffer lo s rule: Decoder_loop.induct)
  case (1 buffer v lo s)
  show ?case
  proof (cases "Decoder_leftover v s")
    case (Inl e)
    then show ?thesis
      using Decoder_leftover_emit [OF "1.prems"]
      by (simp add: written_items_Cons del: Decoder_items.simps)
  next
    case (Inr s')
    then have "rep_tempCounter (dec_repository s') = 0"
      using Decoder_leftover_emit [OF "1.prems"] written_tempCounter "1.prems" by fastforce
    from "1.IH" [OF Inr this] show ?thesis
      using Inr Decoder_leftover_emit [OF "1.prems"]
      by (simp add: written_items_Cons del: Decoder_items.simps)
  qed
next
  case (2 s)
  show ?case by (simp add: written_def unpack_def)
next
  case (3 w buffer s)
  show ?case
  proof (cases "Raw15bit_IsValid w")
    case True
    have u: "unpack (w # buffer) = Lit w # unpack buffer"
      using True by (simp add: unpack_def unpack_word_def)
    show ?thesis
    proof (cases "Decoder_literal w s")
      case (Inl e)
      then show ?thesis
        using True Decoder_literal_emit [OF "3.prems"]
        by (simp add: u written_items_Cons del: Decoder_items.simps)
    next
      case (Inr s')
      then have "rep_tempCounter (dec_repository s') = 0"
        using Decoder_literal_emit [OF "3.prems"] written_tempCounter "3.prems" by fastforce
      from "3.IH"(1) [OF True Inr this] show ?thesis
        using True Inr Decoder_literal_emit [OF "3.prems"]
        by (simp add: u written_items_Cons del: Decoder_items.simps)
    qed
  next
    case False
    obtain a b c where g: "Chunker_Get w = (a, b, c)" by (cases "Chunker_Get w") auto
    have u: "unpack (w # buffer) = Sub a # Sub b # Sub c # unpack buffer"
      using False g by (simp add: unpack_def unpack_word_def)
    from "3.IH"(2) [OF False g [symmetric] refl "3.prems"] show ?thesis
      using False g by (simp add: u del: Decoder_items.simps)
  qed
qed


lemma Decoder_new_repository:
  "Decoder_new n = (Decoder_new 0)\<lparr>dec_repository := SpeedFirstRepository_new n\<rparr>"
  by (simp add: Decoder_new_def)

lemma Decoder_samples_alt:
  "Decoder_samples buffer =
     fst (Decoder_items (unpack buffer) (Decoder_new 0))
       @ run_samples (snd (Decoder_items (unpack buffer) (Decoder_new 0)))"
  by (simp add: Decoder_samples_def split: prod.splits)

lemma QOI15Decoder_writes:
  "QOI15Decoder buffer n =
     (case Repository_writes (Decoder_samples buffer) (SpeedFirstRepository_new n) of
        Inl e \<Rightarrow> Inl e
      | Inr r \<Rightarrow>
          Inr ((snd (Decoder_items (unpack buffer) (Decoder_new 0)))
                 \<lparr>dec_repository := r, dec_runLengthValues := []\<rparr>))"
proof -
  let ?r0 = "SpeedFirstRepository_new n"
  let ?p = "Decoder_items (unpack buffer) (Decoder_new 0)"
  have tc: "rep_tempCounter (dec_repository (Decoder_new n)) = 0"
    by (simp add: Decoder_new_def SpeedFirstRepository_new_def)
  have r: "dec_repository (Decoder_new n) = ?r0" by (simp add: Decoder_new_def)
  have loop: "Decoder_loop buffer [] (Decoder_new n) =
      (case Repository_writes (fst ?p) ?r0 of Inl e \<Rightarrow> Inl e
       | Inr r' \<Rightarrow> Inr ((snd ?p)\<lparr>dec_repository := r'\<rparr>))"
    unfolding Decoder_loop_items [OF tc] r
    by (subst Decoder_new_repository) (simp add: written_def Decoder_items_repository split: sum.splits)
  show ?thesis
  proof (cases "Repository_writes (fst ?p) ?r0")
    case (Inl e)
    then show ?thesis
      by (simp add: QOI15Decoder_def loop Decoder_samples_alt Repository_writes_append)
  next
    case (Inr r1)
    then have "rep_tempCounter r1 = 0"
      using Repository_writes_tempCounter [OF Inr] by (simp add: SpeedFirstRepository_new_def)
    then have tc1: "rep_tempCounter (dec_repository ((snd ?p)\<lparr>dec_repository := r1\<rparr>)) = 0" by simp
    show ?thesis
      using Inr
      by (simp add: QOI15Decoder_def loop Decoder_samples_alt Repository_writes_append
          Decoder_flushRun_writes [OF tc1] split: sum.splits)
  qed
qed

lemma decode_samples:
  "decode buffer n =
     (if length (Decoder_samples buffer) \<le> n then Inr (Decoder_samples buffer) else Inl OutOfBounds)"
proof (cases "length (Decoder_samples buffer) \<le> n")
  case True
  then have fit: "rep_counter (SpeedFirstRepository_new n) + length (Decoder_samples buffer)
      \<le> length (rep_buffer (SpeedFirstRepository_new n))"
    by (simp add: SpeedFirstRepository_new_def)
  have "Repository_Get (appended (Decoder_samples buffer) (SpeedFirstRepository_new n))
      = Decoder_samples buffer"
    using appended_Get [OF fit]
    by (simp add: Repository_Get_def Repository_GetSize_def SpeedFirstRepository_new_def)
  then show ?thesis
    using True
    unfolding decode_def QOI15Decoder_writes Repository_writes_appended [OF fit]
    by (simp add: Decoder_Get_def)
next
  case False
  then have "Repository_writes (Decoder_samples buffer) (SpeedFirstRepository_new n) = Inl OutOfBounds"
    by (intro Repository_writes_full) (simp_all add: SpeedFirstRepository_new_def)
  then show ?thesis
    using False by (simp add: decode_def QOI15Decoder_writes)
qed




lemma decode_overflow: "decode [0x8000, 0, 0, 0, 0x6040] 5 = Inr [0x0000, 0x0002]"
  by code_simp



section \<open>Facts about the words of the codec\<close>

lemma le_0x1F_iff: "(a :: uint8_t) \<le> 0x1F \<longleftrightarrow> take_bit 5 a = a"
proof -
  have "a \<le> 0x1F \<longleftrightarrow> uint a < 2 ^ 5" by (simp add: word_le_def) presburger
  also have "\<dots> \<longleftrightarrow> a AND mask 5 = a" by (simp only: mask_eq_iff)
  finally show ?thesis by (simp add: take_bit_eq_mask)
qed

lemma bits_below_5: "(a :: uint8_t) \<le> 0x1F \<Longrightarrow> bit a n \<Longrightarrow> n < 5"
  by (metis le_0x1F_iff bit_take_bit_iff)

lemma bit_0x8000: "bit (0x8000 :: int) n \<longleftrightarrow> n = 15"
proof -
  have e: "(0x8000 :: int) = 2 ^ 15" by simp
  show ?thesis by (simp only: e bit_exp_iff) auto
qed

lemma mask5_16: "(0x1F :: uint16_t) = mask 5"
  by (simp add: mask_eq_exp_minus_1)

lemma Chunker_Get_Set:
  assumes "a \<le> 0x1F" and "b \<le> 0x1F" and "c \<le> 0x1F"
  shows "Chunker_Get (Chunker_Set a b c) = (a, b, c)"
proof -
  note d = bits_below_5 [OF assms(1)] bits_below_5 [OF assms(2)] bits_below_5 [OF assms(3)]
  let ?w = "ucast a OR push_bit 5 (ucast b) OR push_bit 10 (ucast c) :: uint16_t"
  have 1: "(ucast (?w AND mask 5) :: uint8_t) = a"
    by (rule bit_eqI) (auto simp: bit_simps dest: d)
  have 2: "(ucast (drop_bit 5 ?w AND mask 5) :: uint8_t) = b"
    by (rule bit_eqI) (auto simp: bit_simps dest: d)
  have 3: "(ucast (drop_bit 10 ?w AND mask 5) :: uint8_t) = c"
    by (rule bit_eqI) (auto simp: bit_simps dest: d)
  show ?thesis
    unfolding Chunker_Get_def Chunker_Set_def mask5_16 using 1 2 3 by simp
qed

lemma Chunker_Set_not_literal:
  assumes "a \<le> 0x1F" and "b \<le> 0x1F" and "c \<le> 0x1F"
  shows "\<not> Raw15bit_IsValid (Chunker_Set a b c)"
proof -
  note d = bits_below_5 [OF assms(1)] bits_below_5 [OF assms(2)] bits_below_5 [OF assms(3)]
  have "(ucast a OR push_bit 5 (ucast b) OR push_bit 10 (ucast c) :: uint16_t) AND 0x8000 = 0"
    by (rule bit_eqI) (auto simp: bit_simps bit_0x8000 dest: d)
  then show ?thesis by (simp add: Raw15bit_IsValid_def Chunker_Set_def)
qed

lemma Raw15bit_Get_literal: "Raw15bit_IsValid (Raw15bit_Get v)"
proof -
  have "(0x8000 OR v) AND 0x8000 \<noteq> 0"
  proof
    assume "(0x8000 OR v) AND 0x8000 = 0"
    then have "bit ((0x8000 OR v) AND 0x8000) 15 = bit (0 :: uint16_t) 15" by simp
    then show False by (simp add: bit_simps bit_0x8000)
  qed
  then show ?thesis by (simp add: Raw15bit_IsValid_def Raw15bit_Get_def)
qed

lemma BitShifter_Get_le: "BitShifter_Get (Suc m) v \<le> 0x7FFF"
proof -
  have "drop_bit (Suc m) v AND mask 15 = drop_bit (Suc m) v"
    by (rule bit_eqI) (auto simp: bit_simps dest: bit_imp_le_length)
  then have "uint (drop_bit (Suc m) v) < 2 ^ 15" by (simp only: mask_eq_iff)
  then show ?thesis by (simp add: word_le_def BitShifter_Get_def)
qed

lemma Raw15bit_Set_Get: "Raw15bit_Set (Raw15bit_Get (BitShifter_Get (Suc m) v)) = BitShifter_Get (Suc m) v"
proof -
  have e: "(0x7FFF :: uint16_t) = mask 15" by (simp add: mask_eq_exp_minus_1)
  have "mask 15 AND (0x8000 OR drop_bit (Suc m) v) = drop_bit (Suc m) v"
    by (rule bit_eqI) (auto simp: bit_simps bit_0x8000 dest: bit_imp_le_length)
  then show ?thesis by (simp add: Raw15bit_Set_def Raw15bit_Get_def BitShifter_Get_def e)
qed

lemma push_drop_mask: "push_bit m (drop_bit m (v :: uint16_t)) = v AND NOT (mask m)"
  by (rule bit_eqI) (auto simp: bit_simps)

lemma BitShifter_Set_Get: "BitShifter_Set 1 (BitShifter_Get 1 v) = v AND 0xFFFE"
proof -
  have m2: "(- 2 :: uint16_t) = 0xFFFE" by simp
  show ?thesis
    using push_drop_mask [of 1 v] by (simp add: BitShifter_Set_def BitShifter_Get_def m2)
qed

lemma word8_le_7_cases: "(h :: uint8_t) \<le> 7 \<Longrightarrow> h \<in> {0, 1, 2, 3, 4, 5, 6, 7}"
proof -
  assume "h \<le> 7"
  then have "unat h \<le> 7" by (simp add: word_le_nat_alt)
  then have "unat h \<in> {0, 1, 2, 3, 4, 5, 6, 7}" by auto
  then show ?thesis by (auto simp: word_unat_eq_iff)
qed

lemma base8_digit_le: "(word_of_nat (n mod 8) :: uint8_t) \<le> 7"
proof -
  have "n mod 8 < 8" by simp
  then have "n mod 8 \<in> {0, 1, 2, 3, 4, 5, 6, 7}" by auto
  then show ?thesis by auto
qed

lemma base8_digits_le: "d \<in> set (base8_digits n) \<Longrightarrow> d \<le> 7"
proof (induction n rule: base8_digits.induct)
  case (1 n)
  show ?case
  proof (cases "n = 0")
    case True
    then show ?thesis using "1.prems" by (simp add: base8_digits.simps)
  next
    case False
    then have "base8_digits n = word_of_nat (n mod 8) # base8_digits (n div 8)"
      by (subst base8_digits.simps) simp
    then show ?thesis using "1.prems" "1.IH" [OF False] base8_digit_le by auto
  qed
qed

lemma RunLength_header_iff: "RunLength_CheckHeader RunLength_T d \<longleftrightarrow> d \<le> 7"
proof
  assume "d \<le> 7"
  then show "RunLength_CheckHeader RunLength_T d"
    using word8_le_7_cases [of d] by (auto simp: RunLength_CheckHeader_def RunLength_T_def)
next
  assume "RunLength_CheckHeader RunLength_T d"
  then have "d AND NOT 7 = 0" by (simp add: RunLength_CheckHeader_def RunLength_T_def)
  then have "d AND NOT (mask 3) = 0" by (simp add: mask_eq_exp_minus_1)
  then have "d AND mask 3 = d"
    by (metis and.right_neutral bit.conj_disj_distrib bit.disj_cancel_right or.right_neutral and.commute bit.conj_one_right)
  then have "uint d < 2 ^ 3" by (simp only: mask_eq_iff)
  then show "d \<le> 7" by (simp add: word_le_def)
qed



section \<open>The round trip\<close>

lemma Differential_IsValid_cases:
  "Differential_IsValid Differential_T d \<Longrightarrow>
   d \<in> {-8, -7, -6, -5, -4, -3, -2, -1, 1, 2, 3, 4, 5, 6, 7, 8}"
  by (simp add: Differential_IsValid_def abs_if split: if_splits) presburger+

lemma Differential_Get_valid:
  assumes "Differential_IsValid Differential_T d"
  shows "Differential_Get Differential_T d \<le> 0x1F"
    and "Differential_CheckHeader Differential_T (Differential_Get Differential_T d)"
    and "Differential_Set Differential_T (Differential_Get Differential_T d) = d"
  using Differential_IsValid_cases [OF assms]
  by (auto simp: Differential_Get_def Differential_Set_def Differential_CheckHeader_def
      Differential_T_def Differential_MaxValue_def)

lemma Table_Hash_le: "Table_Hash Table_T t v \<le> 7"
proof -
  let ?h = "ucast (drop_bit (tbl_hashBit t) v AND ucast (7 :: uint8_t)) :: uint8_t"
  have m: "(7 :: uint8_t) = mask 3" by (simp add: mask_eq_exp_minus_1)
  have "?h AND mask 3 = ?h"
    unfolding m by (rule bit_eqI) (auto simp: bit_simps)
  then have "uint ?h < 2 ^ 3" by (simp only: mask_eq_iff)
  then show ?thesis by (simp add: word_le_def Table_Hash_def Table_T_def)
qed

lemma Table_Get_valid:
  assumes "h \<le> 7"
  shows "Table_Get Table_T h \<le> 0x1F"
    and "Table_CheckHeader Table_T (Table_Get Table_T h)"
    and "\<not> RunLength_CheckHeader RunLength_T (Table_Get Table_T h)"
    and "\<not> Differential_CheckHeader Differential_T (Table_Get Table_T h)"
    and "Table_Set Table_T (Table_Get Table_T h) = h"
  using word8_le_7_cases [OF assms]
  by (auto simp: Table_Get_def Table_Set_def Table_CheckHeader_def RunLength_CheckHeader_def
      Differential_CheckHeader_def Table_T_def RunLength_T_def Differential_T_def)

lemma run_items_ok: "i \<in> set (run_items k) \<Longrightarrow> item_ok i"
proof -
  assume "i \<in> set (run_items k)"
  then obtain d where "i = Sub d" and "d \<in> set (base8_digits (nat k))"
    by (auto simp: run_items_def)
  moreover have "(7 :: uint8_t) \<le> 0x1F" by simp
  ultimately show ?thesis using base8_digits_le [of d "nat k"] by (auto intro: order_trans)
qed

lemma Encoder_emit_ok: "i \<in> set (fst (Encoder_emit shift x s)) \<Longrightarrow> item_ok i"
  using run_items_ok [of i "enc_runLength s"]
    Differential_Get_valid(1) [of "Differential_Sub (enc_previous s) (BitShifter_Get shift x)"]
    Table_Get_valid(1) [OF Table_Hash_le, of "enc_table s" "BitShifter_Get shift x"]
    Raw15bit_Get_literal [of "BitShifter_Get shift x"]
  by (auto simp: Encoder_emit_def Let_def split: if_splits)

lemma Encoder_items_ok: "i \<in> set (fst (Encoder_items shift xs s)) \<Longrightarrow> item_ok i"
proof (induction xs arbitrary: s)
  case Nil
  then show ?case by simp
next
  case (Cons x xs)
  then show ?case
    using Encoder_emit_ok by (auto simp: Encoder_items_Cons simp del: Encoder_items.simps)
qed

lemma QOI15Encoder_items_alt:
  "QOI15Encoder_items shift xs =
     fst (Encoder_items shift xs (Encoder_new (length xs)))
       @ run_items (enc_runLength (snd (Encoder_items shift xs (Encoder_new (length xs)))))"
  by (simp add: QOI15Encoder_items_def split: prod.splits)

lemma QOI15Encoder_items_ok: "i \<in> set (QOI15Encoder_items shift xs) \<Longrightarrow> item_ok i"
  using Encoder_items_ok run_items_ok
  by (auto simp: QOI15Encoder_items_alt)

lemma unpack_append: "unpack (ws @ ws') = unpack ws @ unpack ws'"
  by (simp add: unpack_def)

lemma unpack_Cons: "unpack (w # ws) = unpack_word w @ unpack ws"
  by (simp add: unpack_def)

lemma unpack_word_Chunker:
  "a \<le> 0x1F \<Longrightarrow> b \<le> 0x1F \<Longrightarrow> c \<le> 0x1F \<Longrightarrow>
   unpack_word (Chunker_Set a b c) = [Sub a, Sub b, Sub c]"
  by (simp add: unpack_word_def Chunker_Get_Set Chunker_Set_not_literal)

lemma unpack_chunks:
  "\<forall>v \<in> set pending. v \<le> 0x1F \<Longrightarrow>
   unpack (chunks pending) = map Sub (pending @ padding pending)"
proof (induction pending rule: chunks.induct)
  case (1 a b c rest)
  have "padding (a # b # c # rest) = padding rest" by (simp add: padding_def)
  then show ?case using 1 by (simp add: unpack_Cons unpack_word_Chunker)
next
  case (2 a b)
  then show ?case by (simp add: unpack_Cons unpack_word_Chunker padding_def unpack_def)
next
  case (3 a)
  then show ?case
    by (simp add: unpack_Cons unpack_word_Chunker padding_def unpack_def numeral_2_eq_2)
next
  case 4
  show ?case by (simp add: padding_def unpack_def)
qed


lemma Decoder_items_append:
  "Decoder_items (items @ items') s =
     (fst (Decoder_items items s) @ fst (Decoder_items items' (snd (Decoder_items items s))),
      snd (Decoder_items items' (snd (Decoder_items items s))))"
proof (induction items arbitrary: s)
  case Nil
  show ?case by simp
next
  case (Cons i items)
  show ?case
    by (simp add: Decoder_items_Cons Cons.IH del: Decoder_items.simps)
qed

lemma final_append:
  "final (Decoder_items (items @ items') s) =
     fst (Decoder_items items s) @ final (Decoder_items items' (snd (Decoder_items items s)))"
  by (simp add: final_def Decoder_items_append)

lemma final_Cons:
  "final (Decoder_items (i # items) s) =
     fst (Decoder_emit i s) @ final (Decoder_items items (snd (Decoder_emit i s)))"
  by (simp add: final_def Decoder_items_Cons del: Decoder_items.simps)

lemma RunLength_Set_loop_append:
  "RunLength_Set_loop p (vs @ ws) s acc =
     RunLength_Set_loop p ws (s + t_valueBit p * length vs) (RunLength_Set_loop p vs s acc)"
  by (induction vs arbitrary: s acc) (simp_all add: add.assoc)

lemma RunLength_Set_loop_zeros: "RunLength_Set_loop p (replicate k 0) s acc = acc"
  by (induction k arbitrary: s) simp_all

lemma RunLength_Set_zeros:
  "RunLength_Set p (vs @ replicate k 0) = RunLength_Set p vs"
  by (simp add: RunLength_Set_def RunLength_Set_loop_append RunLength_Set_loop_zeros)

lemma Decoder_items_digits:
  "\<forall>v \<in> set vs. v \<le> 7 \<Longrightarrow>
   Decoder_items (map Sub vs) s = ([], s\<lparr>dec_runLengthValues := dec_runLengthValues s @ vs\<rparr>)"
proof (induction vs arbitrary: s)
  case Nil
  show ?case by simp
next
  case (Cons v vs)
  then have "RunLength_CheckHeader RunLength_T v" by (simp add: RunLength_header_iff)
  then show ?case using Cons by simp
qed

lemma run_samples_zeros:
  "run_samples (s\<lparr>dec_runLengthValues := dec_runLengthValues s @ replicate k 0\<rparr>) = run_samples s"
  by (simp add: run_samples_def RunLength_Set_zeros)

lemma Decoder_emit_Lit_zeros:
  "Decoder_emit (Lit w) (s\<lparr>dec_runLengthValues := dec_runLengthValues s @ replicate k 0\<rparr>)
     = Decoder_emit (Lit w) s"
  using run_samples_zeros [of s k] by (simp add: Let_def)

lemma Decoder_items_padding:
  "Decoder_items (map Sub (padding pending)) s =
     ([], s\<lparr>dec_runLengthValues := dec_runLengthValues s @ padding pending\<rparr>)"
  by (rule Decoder_items_digits) (simp add: padding_def)

lemma final_padding_end:
  "final (Decoder_items (map Sub (padding pending)) s) = final (Decoder_items [] s)"
  by (simp add: Decoder_items_padding final_def) (simp add: padding_def run_samples_zeros)

lemma final_padding_Lit:
  "final (Decoder_items (map Sub (padding pending) @ Lit w # items) s)
     = final (Decoder_items (Lit w # items) s)"
  unfolding final_append Decoder_items_padding final_Cons
  by (simp add: padding_def Decoder_emit_Lit_zeros del: Decoder_emit.simps)

lemma final_unpack_pack:
  "\<forall>i \<in> set items. item_ok i \<Longrightarrow> \<forall>v \<in> set pending. v \<le> 0x1F \<Longrightarrow>
   final (Decoder_items (unpack (pack_items pending items)) s)
     = final (Decoder_items (map Sub pending @ items) s)"
proof (induction pending items arbitrary: s rule: pack_items.induct)
  case (1 pending)
  let ?s1 = "snd (Decoder_items (map Sub pending) s)"
  have "final (Decoder_items (unpack (pack_items pending [])) s)
      = final (Decoder_items (map Sub pending @ map Sub (padding pending)) s)"
    using 1 by (simp add: unpack_chunks)
  also have "\<dots> = fst (Decoder_items (map Sub pending) s)
      @ final (Decoder_items (map Sub (padding pending)) ?s1)"
    by (rule final_append)
  also have "\<dots> = fst (Decoder_items (map Sub pending) s) @ final (Decoder_items [] ?s1)"
    by (simp only: final_padding_end)
  also have "\<dots> = final (Decoder_items (map Sub pending @ []) s)"
    by (rule final_append [symmetric])
  finally show ?case .
next
  case (2 pending v items)
  then show ?case by simp
next
  case (3 pending w items)
  let ?s1 = "snd (Decoder_items (map Sub pending) s)"
  let ?s2 = "snd (Decoder_emit (Lit w) ?s1)"
  let ?U = "unpack (pack_items [] items)"
  have lit: "unpack_word w = [Lit w]" using 3(2) by (simp add: unpack_word_def)
  have ih: "final (Decoder_items ?U ?s2) = final (Decoder_items items ?s2)"
    using 3(1) [of ?s2] 3(2) by simp
  have "final (Decoder_items (unpack (pack_items pending (Lit w # items))) s)
      = final (Decoder_items (map Sub pending @ (map Sub (padding pending) @ Lit w # ?U)) s)"
    using 3(3) by (simp add: unpack_append unpack_Cons unpack_chunks lit)
  also have "\<dots> = fst (Decoder_items (map Sub pending) s)
      @ final (Decoder_items (map Sub (padding pending) @ Lit w # ?U) ?s1)"
    by (rule final_append)
  also have "\<dots> = fst (Decoder_items (map Sub pending) s) @ final (Decoder_items (Lit w # ?U) ?s1)"
    by (simp only: final_padding_Lit)
  also have "\<dots> = fst (Decoder_items (map Sub pending) s) @ final (Decoder_items (Lit w # items) ?s1)"
    by (simp only: final_Cons ih)
  also have "\<dots> = final (Decoder_items (map Sub pending @ Lit w # items) s)"
    by (rule final_append [symmetric])
  finally show ?case .
qed


lemma Differential_Add_Sub: "Differential_Add previous (Differential_Sub previous current) = current"
  by (simp add: Differential_Add_def Differential_Sub_def)

lemma Decoder_items_run:
  assumes "dec_runLengthValues d = []"
  shows "Decoder_items (run_items k) d = ([], d\<lparr>dec_runLengthValues := base8_digits (nat k)\<rparr>)"
  unfolding run_items_def
  using Decoder_items_digits [of "base8_digits (nat k)" d] base8_digits_le assms by auto

lemma run_samples_decoded:
  "dec_previous d = enc_previous e \<Longrightarrow>
   run_samples (d\<lparr>dec_runLengthValues := base8_digits (nat (enc_runLength e))\<rparr>) = decoded_run e"
  by (simp add: run_samples_def decoded_run_def)

lemma decoded_run_pending:
  "0 \<le> enc_runLength e \<Longrightarrow> enc_runLength e \<le> INT_MAX \<Longrightarrow> decoded_run e = pending_run e"
  by (simp add: decoded_run_def pending_run_def RunLength_Set_digits)

lemma length_decoded_run:
  "0 \<le> enc_runLength e \<Longrightarrow> length (decoded_run e) \<le> length (pending_run e)"
  using RunLength_Set_digits_le [of "nat (enc_runLength e)"]
  by (simp add: decoded_run_def pending_run_def)

lemma Decoder_emit_Differential:
  assumes "Differential_IsValid Differential_T diff"
  shows "Decoder_emit (Sub (Differential_Get Differential_T diff)) d =
     (run_samples d @ [BitShifter_Set 1 (Differential_Add (dec_previous d) diff)],
      d\<lparr>dec_runLengthValues := [], dec_previous := Differential_Add (dec_previous d) diff\<rparr>)"
proof -
  note v = Differential_Get_valid [OF assms]
  have "\<not> RunLength_CheckHeader RunLength_T (Differential_Get Differential_T diff)"
    using header_RunLength_exclusive(1) v(2) by blast
  then show ?thesis using v by (simp add: Let_def)
qed

lemma Decoder_emit_Table:
  assumes "h \<le> 7"
  shows "Decoder_emit (Sub (Table_Get Table_T h)) d =
     (run_samples d @ [BitShifter_Set 1 (Table_Refer (dec_table d) h)],
      d\<lparr>dec_runLengthValues := [], dec_previous := Table_Refer (dec_table d) h\<rparr>)"
  using Table_Get_valid [OF assms] by (simp add: Let_def)

text \<open>
  One sample: the decoder, having read what the encoder emits for it, is again in a
  related state. When the sample ends a run, the decoder has emitted the run as
  \<open>RunLength::Set\<close> counts it from the digits, and the sample.
\<close>

lemma simulation_step:
  assumes rel: "related e d"
  shows "related (snd (Encoder_emit 1 x e)) (snd (Decoder_items (fst (Encoder_emit 1 x e)) d))"
    and "fst (Decoder_items (fst (Encoder_emit 1 x e)) d) @ pending_run (snd (Encoder_emit 1 x e))
      = (if enc_previous e = BitShifter_Get 1 x then pending_run e else decoded_run e)
          @ [x AND 0xFFFE]"
proof -
  define cur where "cur = BitShifter_Get 1 x"
  define diff where "diff = Differential_Sub (enc_previous e) cur"
  define hash where "hash = Table_Hash Table_T (enc_table e) cur"
  define d1 where "d1 = d\<lparr>dec_runLengthValues := base8_digits (nat (enc_runLength e))\<rparr>"
  have t: "dec_table d = enc_table e" and p: "dec_previous d = enc_previous e"
    and r: "dec_runLengthValues d = []" and k: "0 \<le> enc_runLength e"
    using rel by (simp_all add: related_def)
  have shifted: "BitShifter_Set 1 cur = x AND 0xFFFE"
    unfolding cur_def by (rule BitShifter_Set_Get)
  have run: "Decoder_items (run_items (enc_runLength e)) d = ([], d1)"
    unfolding d1_def using Decoder_items_run [OF r] .
  have rs: "run_samples d1 = decoded_run e"
    unfolding d1_def using p by (rule run_samples_decoded)
  have d1: "dec_table d1 = enc_table e" "dec_previous d1 = enc_previous e"
    by (simp_all add: d1_def t p)
  have raw: "Raw15bit_Set (Raw15bit_Get cur) = cur"
    unfolding cur_def using Raw15bit_Set_Get [of 0 x] by simp
  have hle: "hash \<le> 7" unfolding hash_def by (rule Table_Hash_le)
  have emit: "Encoder_emit 1 x e =
     (if enc_previous e = cur then ([], e\<lparr>enc_runLength := enc_runLength e + 1\<rparr>)
      else if Differential_IsValid Differential_T diff
      then (run_items (enc_runLength e) @ [Sub (Differential_Get Differential_T diff)],
            e\<lparr>enc_runLength := 0, enc_previous := cur\<rparr>)
      else if Table_Refer (enc_table e) hash = cur
      then (run_items (enc_runLength e) @ [Sub (Table_Get Table_T hash)],
            e\<lparr>enc_runLength := 0, enc_previous := cur\<rparr>)
      else (run_items (enc_runLength e) @ [Lit (Raw15bit_Get cur)],
            e\<lparr>enc_runLength := 0, enc_table := Table_Insert (enc_table e) hash cur,
              enc_previous := cur\<rparr>))"
    by (simp add: Encoder_emit_def Let_def cur_def diff_def hash_def)
  consider (same) "enc_previous e = cur"
    | (differential) "enc_previous e \<noteq> cur" "Differential_IsValid Differential_T diff"
    | (hit) "enc_previous e \<noteq> cur" "\<not> Differential_IsValid Differential_T diff"
        "Table_Refer (enc_table e) hash = cur"
    | (literal) "enc_previous e \<noteq> cur" "\<not> Differential_IsValid Differential_T diff"
        "Table_Refer (enc_table e) hash \<noteq> cur"
    by blast
  then have "related (snd (Encoder_emit 1 x e)) (snd (Decoder_items (fst (Encoder_emit 1 x e)) d))
    \<and> fst (Decoder_items (fst (Encoder_emit 1 x e)) d) @ pending_run (snd (Encoder_emit 1 x e))
      = (if enc_previous e = cur then pending_run e else decoded_run e) @ [x AND 0xFFFE]"
  proof cases
    case same
    have "nat (enc_runLength e + 1) = Suc (nat (enc_runLength e))" using k by simp
    then show ?thesis
      unfolding emit using same rel shifted
      by (simp add: related_def pending_run_def replicate_append_same)
  next
    case differential
    have de: "Decoder_emit (Sub (Differential_Get Differential_T diff)) d1 =
        (decoded_run e @ [x AND 0xFFFE], d1\<lparr>dec_runLengthValues := [], dec_previous := cur\<rparr>)"
    proof -
      have "Differential_Add (enc_previous e) diff = cur"
        unfolding diff_def by (rule Differential_Add_Sub)
      then show ?thesis
        using Decoder_emit_Differential [OF differential(2), of d1] d1 rs shifted
        by (simp del: Decoder_emit.simps)
    qed
    show ?thesis
      unfolding emit using differential
      by (simp add: Decoder_items_append run de d1 related_def pending_run_def
          del: Decoder_emit.simps)
  next
    case hit
    have de: "Decoder_emit (Sub (Table_Get Table_T hash)) d1 =
        (decoded_run e @ [x AND 0xFFFE], d1\<lparr>dec_runLengthValues := [], dec_previous := cur\<rparr>)"
      using Decoder_emit_Table [OF hle, of d1] d1 rs hit(3) shifted
      by (simp del: Decoder_emit.simps)
    show ?thesis
      unfolding emit using hit
      by (simp add: Decoder_items_append run de d1 related_def pending_run_def
          del: Decoder_emit.simps)
  next
    case literal
    have de: "Decoder_emit (Lit (Raw15bit_Get cur)) d1 =
        (decoded_run e @ [x AND 0xFFFE],
         d1\<lparr>dec_table := Table_Insert (enc_table e) hash cur,
            dec_previous := cur, dec_runLengthValues := []\<rparr>)"
      using raw d1 rs shifted by (simp add: Let_def hash_def)
    show ?thesis
      unfolding emit using literal
      by (simp add: Decoder_items_append run de d1 related_def pending_run_def
          del: Decoder_emit.simps)
  qed
  then show "related (snd (Encoder_emit 1 x e)) (snd (Decoder_items (fst (Encoder_emit 1 x e)) d))"
    and "fst (Decoder_items (fst (Encoder_emit 1 x e)) d) @ pending_run (snd (Encoder_emit 1 x e))
      = (if enc_previous e = BitShifter_Get 1 x then pending_run e else decoded_run e)
          @ [x AND 0xFFFE]"
    unfolding cur_def by simp_all
qed

text \<open>A run that fits an \<open>int\<close> is decoded as the encoder counted it.\<close>

lemma simulation_step_samples:
  assumes rel: "related e d" and bound: "enc_runLength e \<le> INT_MAX"
  shows "fst (Decoder_items (fst (Encoder_emit 1 x e)) d) @ pending_run (snd (Encoder_emit 1 x e))
      = pending_run e @ [x AND 0xFFFE]"
proof -
  have "0 \<le> enc_runLength e" using rel by (simp add: related_def)
  then have "decoded_run e = pending_run e" using bound by (rule decoded_run_pending)
  then show ?thesis using simulation_step(2) [OF rel, of x] by simp
qed

text \<open>In any case the decoder makes no more samples of a run than the encoder counted.\<close>

lemma simulation_step_length:
  assumes rel: "related e d"
  shows "length (fst (Decoder_items (fst (Encoder_emit 1 x e)) d))
      + length (pending_run (snd (Encoder_emit 1 x e))) \<le> length (pending_run e) + 1"
proof -
  have k: "0 \<le> enc_runLength e" using rel by (simp add: related_def)
  have "length (fst (Decoder_items (fst (Encoder_emit 1 x e)) d) @ pending_run (snd (Encoder_emit 1 x e)))
      = length ((if enc_previous e = BitShifter_Get 1 x then pending_run e else decoded_run e)
          @ [x AND 0xFFFE])"
    by (simp only: simulation_step(2) [OF rel, of x])
  then show ?thesis using length_decoded_run [OF k] by (simp split: if_splits)
qed

lemma simulation:
  "related e d \<Longrightarrow> enc_runLength e + int (length xs) \<le> INT_MAX \<Longrightarrow>
   final (Decoder_items (fst (Encoder_items 1 xs e)
       @ run_items (enc_runLength (snd (Encoder_items 1 xs e)))) d)
     = pending_run e @ map (\<lambda>x. x AND 0xFFFE) xs"
proof (induction xs arbitrary: e d)
  case Nil
  have r: "dec_runLengthValues d = []" and k: "0 \<le> enc_runLength e"
    and p: "dec_previous d = enc_previous e"
    using Nil by (simp_all add: related_def)
  have b: "enc_runLength e \<le> INT_MAX" using Nil.prems(2) by simp
  show ?case
    using run_samples_decoded [OF p] decoded_run_pending [OF k b]
    by (simp add: final_def Decoder_items_run [OF r])
next
  case (Cons x xs)
  let ?e1 = "snd (Encoder_emit 1 x e)"
  let ?items = "fst (Encoder_emit 1 x e)"
  let ?d1 = "snd (Decoder_items ?items d)"
  let ?rest = "fst (Encoder_items 1 xs ?e1) @ run_items (enc_runLength (snd (Encoder_items 1 xs ?e1)))"
  have k: "0 \<le> enc_runLength e" using Cons.prems(1) by (simp add: related_def)
  have b: "enc_runLength e \<le> INT_MAX" using Cons.prems(2) by simp
  have b1: "enc_runLength ?e1 + int (length xs) \<le> INT_MAX"
    using length_Encoder_emit [OF k, of 1 x] Cons.prems(2) by simp
  note rel1 = simulation_step(1) [OF Cons.prems(1), of x]
  note st = simulation_step_samples [OF Cons.prems(1) b, of x]
  have "final (Decoder_items (fst (Encoder_items 1 (x # xs) e)
       @ run_items (enc_runLength (snd (Encoder_items 1 (x # xs) e)))) d)
      = final (Decoder_items (?items @ ?rest) d)"
    by (simp add: Encoder_items_Cons del: Encoder_items.simps)
  also have "\<dots> = fst (Decoder_items ?items d) @ final (Decoder_items ?rest ?d1)"
    by (rule final_append)
  also have "\<dots> = fst (Decoder_items ?items d) @ pending_run ?e1 @ map (\<lambda>x. x AND 0xFFFE) xs"
    using Cons.IH [OF rel1 b1] by simp
  also have "\<dots> = pending_run e @ map (\<lambda>x. x AND 0xFFFE) (x # xs)"
    using st by simp
  finally show ?case .
qed

lemma simulation_length:
  "related e d \<Longrightarrow>
   length (final (Decoder_items (fst (Encoder_items 1 xs e)
       @ run_items (enc_runLength (snd (Encoder_items 1 xs e)))) d))
     \<le> length (pending_run e) + length xs"
proof (induction xs arbitrary: e d)
  case Nil
  have r: "dec_runLengthValues d = []" and k: "0 \<le> enc_runLength e"
    and p: "dec_previous d = enc_previous e"
    using Nil by (simp_all add: related_def)
  show ?case
    using run_samples_decoded [OF p] length_decoded_run [OF k]
    by (simp add: final_def Decoder_items_run [OF r])
next
  case (Cons x xs)
  let ?e1 = "snd (Encoder_emit 1 x e)"
  let ?items = "fst (Encoder_emit 1 x e)"
  let ?d1 = "snd (Decoder_items ?items d)"
  let ?rest = "fst (Encoder_items 1 xs ?e1) @ run_items (enc_runLength (snd (Encoder_items 1 xs ?e1)))"
  note rel1 = simulation_step(1) [OF Cons.prems, of x]
  note st = simulation_step_length [OF Cons.prems, of x]
  have "final (Decoder_items (fst (Encoder_items 1 (x # xs) e)
       @ run_items (enc_runLength (snd (Encoder_items 1 (x # xs) e)))) d)
      = final (Decoder_items (?items @ ?rest) d)"
    by (simp add: Encoder_items_Cons del: Encoder_items.simps)
  also have "\<dots> = fst (Decoder_items ?items d) @ final (Decoder_items ?rest ?d1)"
    by (rule final_append)
  finally have "length (final (Decoder_items (fst (Encoder_items 1 (x # xs) e)
       @ run_items (enc_runLength (snd (Encoder_items 1 (x # xs) e)))) d))
      = length (fst (Decoder_items ?items d)) + length (final (Decoder_items ?rest ?d1))"
    by simp
  then show ?case
    using Cons.IH [OF rel1] st by simp
qed

text \<open>
  The samples of the decoder for the output of the encoder: they are the samples of the
  input without their lowest bit when the size of the input is an \<open>int\<close>, and never
  more than the input has.
\<close>

lemma Decoder_samples_items:
  "Decoder_samples (pack_items [] (QOI15Encoder_items 1 xs))
     = final (Decoder_items (fst (Encoder_items 1 xs (Encoder_new (length xs)))
         @ run_items (enc_runLength (snd (Encoder_items 1 xs (Encoder_new (length xs))))))
       (Decoder_new 0))"
proof -
  have ok: "\<forall>i \<in> set (QOI15Encoder_items 1 xs). item_ok i"
    using QOI15Encoder_items_ok by blast
  have "Decoder_samples (pack_items [] (QOI15Encoder_items 1 xs))
      = final (Decoder_items (unpack (pack_items [] (QOI15Encoder_items 1 xs))) (Decoder_new 0))"
    by (simp add: Decoder_samples_alt final_def)
  also have "\<dots> = final (Decoder_items (map Sub [] @ QOI15Encoder_items 1 xs) (Decoder_new 0))"
    using ok by (intro final_unpack_pack) simp_all
  finally show ?thesis by (simp add: QOI15Encoder_items_alt)
qed

lemma related_new: "related (Encoder_new n) (Decoder_new m)"
  by (simp add: related_def Encoder_new_def Decoder_new_def)

lemma Decoder_samples_encode:
  assumes "int (length xs) \<le> INT_MAX"
  shows "Decoder_samples (pack_items [] (QOI15Encoder_items 1 xs)) = map (\<lambda>x. x AND 0xFFFE) xs"
proof -
  have b: "enc_runLength (Encoder_new (length xs)) + int (length xs) \<le> INT_MAX"
    using assms by (simp add: Encoder_new_def)
  show ?thesis
    unfolding Decoder_samples_items simulation [OF related_new b]
    by (simp add: pending_run_def Encoder_new_def)
qed

lemma length_Decoder_samples_encode:
  "length (Decoder_samples (pack_items [] (QOI15Encoder_items 1 xs))) \<le> length xs"
proof -
  let ?e0 = "Encoder_new (length xs)"
  have "length (final (Decoder_items (fst (Encoder_items 1 xs ?e0)
       @ run_items (enc_runLength (snd (Encoder_items 1 xs ?e0)))) (Decoder_new 0)))
     \<le> length (pending_run ?e0) + length xs"
    by (rule simulation_length [OF related_new])
  then show ?thesis
    unfolding Decoder_samples_items by (simp add: pending_run_def Encoder_new_def)
qed

lemma clean_samples: "\<forall>y \<in> set ys. y AND 1 = 0 \<Longrightarrow> map (\<lambda>y. y AND 0xFFFE) ys = (ys :: uint16_t list)"
proof -
  have "y AND 0xFFFE = y" if "y AND 1 = 0" for y :: uint16_t
  proof -
    have "(0xFFFE OR 1 :: uint16_t) = - 1" by simp
    then have "y = y AND (0xFFFE OR 1)" by (simp only: and.right_neutral)
    also have "\<dots> = (y AND 0xFFFE) OR (y AND 1)" by (simp only: bit.conj_disj_distrib)
    finally show ?thesis using that by simp
  qed
  then show "\<forall>y \<in> set ys. y AND 1 = 0 \<Longrightarrow> map (\<lambda>y. y AND 0xFFFE) ys = ys"
    by (simp add: map_idI)
qed

text \<open>
  C1: for every input sequence \<open>ys\<close> of 16-bit samples, with the default internal shift
  of 1, the encoder returns, and decoding its output with \<open>outputSize = length ys\<close>
  returns exactly \<open>length ys\<close> samples, sample \<open>i\<close> being \<open>ys[i] & 0xFFFE\<close>; in
  particular, when every \<open>ys[i] & 1\<close> is 0 the decoded sequence is \<open>ys\<close>. (The size of
  an input is the \<open>int size\<close> given to the encoder, hence at most \<open>INT_MAX\<close>; the
  decoder counts a run in an \<open>int\<close>.)
\<close>

theorem roundtrip:
  "\<exists>out. encode 1 ys = Some (Inr out)
     \<and> (int (length ys) \<le> INT_MAX \<longrightarrow>
          decode out (length ys) = Inr (map (\<lambda>y. y AND 0xFFFE) ys)
          \<and> ((\<forall>y \<in> set ys. y AND 1 = 0) \<longrightarrow> decode out (length ys) = Inr ys))"
proof -
  let ?out = "pack_items [] (QOI15Encoder_items 1 ys)"
  have d: "decode ?out (length ys) = Inr (map (\<lambda>y. y AND 0xFFFE) ys)"
    if "int (length ys) \<le> INT_MAX"
    unfolding decode_samples Decoder_samples_encode [OF that] by simp
  have e: "encode 1 ys = Some (Inr ?out)" by (rule encode_pack)
  show ?thesis
    using clean_samples [of ys] d e by auto
qed


lemma encode_example:
  "encode 1 [0x0100, 0x0100, 0x0102, 0x1000, 0x1000, 0x0100] = Some (Inr [0x8080, 0x0301, 0x8800, 0x0001, 0x8080])"
  by code_simp

theorem roundtrip_witness:
  "encode 1 [0x0100, 0x0100, 0x0102, 0x1000, 0x1000, 0x0100] = Some (Inr [0x8080, 0x0301, 0x8800, 0x0001, 0x8080])
     \<and> decode [0x8080, 0x0301, 0x8800, 0x0001, 0x8080] 6 = Inr [0x0100, 0x0100, 0x0102, 0x1000, 0x1000, 0x0100]"
proof -
  let ?ys = "[0x0100, 0x0100, 0x0102, 0x1000, 0x1000, 0x0100] :: uint16_t list"
  have size: "int (length ?ys) \<le> INT_MAX" by (simp add: INT_MAX_def)
  obtain out where e: "encode 1 ?ys = Some (Inr out)"
    and d: "(\<forall>y \<in> set ?ys. y AND 1 = 0) \<longrightarrow> decode out (length ?ys) = Inr ?ys"
    using roundtrip [of ?ys] size by blast
  have clean: "\<forall>y \<in> set ?ys. y AND 1 = 0" by simp
  have "out = [0x8080, 0x0301, 0x8800, 0x0001, 0x8080]" using e unfolding encode_example by simp
  then show ?thesis using d clean unfolding encode_example by (simp add: eval_nat_numeral)
qed


section \<open>The first sample\<close>


lemma Table_Hash_in_range: "unat (Table_Hash Table_T t v) < Table_TableSize Table_T"
proof -
  have "Table_Hash Table_T t v \<le> 7" by (rule Table_Hash_le)
  then have "unat (Table_Hash Table_T t v) \<le> 7" by (simp add: word_le_nat_alt)
  then show ?thesis by (simp add: Table_TableSize_def Table_T_def)
qed

lemma Table_Set_in_range: "unat (Table_Set Table_T v) < Table_TableSize Table_T"
proof -
  have "v AND 7 \<le> 7" by (rule word_and_le1)
  then have "unat (v AND 7) \<le> 7" by (simp add: word_le_nat_alt)
  then show ?thesis by (simp add: Table_TableSize_def Table_T_def Table_Set_def)
qed

lemma Table_new_Refer:
  "unat h < Table_TableSize p \<Longrightarrow> Table_Refer (Table_new p hashBit) h = 0xFFFF"
  by (simp add: Table_Refer_def Table_new_def)

lemma sentinel_not_sample: "v \<le> 0x7FFF \<Longrightarrow> v \<noteq> (0xFFFF :: uint16_t)"
  by auto

lemma first_diff_invalid:
  assumes "cur \<le> (0x7FFF :: uint16_t)"
  shows "\<not> Differential_IsValid Differential_T (Differential_Sub 0xFFFF cur)"
proof -
  have "uint cur \<le> 0x7FFF" using assms by (simp add: word_le_def)
  then show ?thesis by (simp add: Differential_IsValid_def Differential_Sub_def)
qed

text \<open>
  C9: for every input and every shift of at least 1, the downshifted first sample is at
  most \<open>0x7FFF\<close>, so it differs from the initial \<open>previous = 0xFFFF\<close> and from every
  entry of the initial table (all \<open>0xFFFF\<close>); the first pass of the loop therefore counts
  no run and takes no table hit: it emits the raw literal of the sample and inserts it.
\<close>

theorem first_sample_is_literal:
  assumes "1 \<le> shift"
  shows "BitShifter_Get shift x \<le> 0x7FFF
    \<and> BitShifter_Get shift x \<noteq> enc_previous (Encoder_new (Suc n))
    \<and> enc_previous (Encoder_new (Suc n)) = 0xFFFF
    \<and> list_all (\<lambda>entry. entry = 0xFFFF \<and> entry \<noteq> BitShifter_Get shift x)
          (tbl_ref (enc_table (Encoder_new (Suc n))))
    \<and> Encoder_emit shift x (Encoder_new (Suc n)) =
         ([Lit (Raw15bit_Get (BitShifter_Get shift x))],
          (Encoder_new (Suc n))
            \<lparr>enc_table := Table_Insert (Table_new Table_T 1)
               (Table_Hash Table_T (Table_new Table_T 1) (BitShifter_Get shift x))
               (BitShifter_Get shift x),
             enc_previous := BitShifter_Get shift x\<rparr>)
    \<and> (\<exists>s. Encoder_step shift x (Encoder_new (Suc n)) = Some (Inr s)
          \<and> enc_runLength s = 0
          \<and> Repository_Get (enc_repository s) = [Raw15bit_Get (BitShifter_Get shift x)])"
proof -
  define cur where "cur = BitShifter_Get shift x"
  obtain m where m: "shift = Suc m" using assms by (cases shift) simp_all
  have le: "cur \<le> 0x7FFF" unfolding cur_def m by (rule BitShifter_Get_le)
  have ne: "cur \<noteq> 0xFFFF" using le by (rule sentinel_not_sample)
  have nd: "\<not> Differential_IsValid Differential_T (Differential_Sub 0xFFFF cur)"
    using le by (rule first_diff_invalid)
  have miss: "Table_Refer (Table_new Table_T 1) (Table_Hash Table_T (Table_new Table_T 1) cur) \<noteq> cur"
    using ne by (simp add: Table_new_Refer Table_Hash_in_range)
  have entries: "list_all (\<lambda>entry. entry = 0xFFFF \<and> entry \<noteq> cur) (tbl_ref (enc_table (Encoder_new (Suc n))))"
    using ne by (simp add: Encoder_new_def Table_new_def list_all_iff)
  have emit: "Encoder_emit shift x (Encoder_new (Suc n)) =
         ([Lit (Raw15bit_Get cur)],
          (Encoder_new (Suc n))
            \<lparr>enc_table := Table_Insert (Table_new Table_T 1)
               (Table_Hash Table_T (Table_new Table_T 1) cur) cur,
             enc_previous := cur\<rparr>)"
    using ne nd miss
    by (simp add: Encoder_emit_def Let_def cur_def [symmetric] Encoder_new_def run_items_def
        base8_digits.simps)
  have z: "0 \<le> enc_runLength (Encoder_new (Suc n))" by (simp add: Encoder_new_def)
  have inv: "Repository_inv (SpeedFirstRepository_new (Suc n))" by (rule Repository_inv_new)
  have set16: "Repository_Set16 (Raw15bit_Get cur) (SpeedFirstRepository_new (Suc n)) =
      Inr ((appended [Raw15bit_Get cur] (SpeedFirstRepository_new (Suc n)))
             \<lparr>rep_temp := [], rep_tempCounter := 0\<rparr>)"
    using Repository_Set16_appended [OF inv, of "Raw15bit_Get cur"]
    by (simp add: SpeedFirstRepository_new_def)
  have get: "Repository_Get (appended [Raw15bit_Get cur] (SpeedFirstRepository_new (Suc n)))
      = [Raw15bit_Get cur]"
    using appended_Get [of "SpeedFirstRepository_new (Suc n)" "[Raw15bit_Get cur]"]
    by (simp add: SpeedFirstRepository_new_def Repository_Get_def Repository_GetSize_def)
  have step: "\<exists>s. Encoder_step shift x (Encoder_new (Suc n)) = Some (Inr s)
          \<and> enc_runLength s = 0
          \<and> Repository_Get (enc_repository s) = [Raw15bit_Get cur]"
    unfolding Encoder_step_emit [OF z] emit
    using set16 get
    by (simp add: Encoder_new_def Repository_Get_def Repository_GetSize_def)
  show ?thesis
    using le ne entries emit step unfolding cur_def by (simp add: Encoder_new_def)
qed


theorem first_sample_is_literal_witness:
  "BitShifter_Get 1 0xFFFF = 0x7FFF
     \<and> BitShifter_Get 1 0xFFFF \<noteq> enc_previous (Encoder_new (Suc 0))
     \<and> fst (Encoder_emit 1 0xFFFF (Encoder_new (Suc 0))) = [Lit 0xFFFF]"
proof -
  have h: "(1::nat) \<le> 1" by simp
  have g: "BitShifter_Get 1 0xFFFF = 0x7FFF" by (simp add: BitShifter_Get_def)
  have r: "Raw15bit_Get 0x7FFF = 0xFFFF" by (simp add: Raw15bit_Get_def)
  show ?thesis
    using first_sample_is_literal [OF h, of "0xFFFF" 0] unfolding g r by simp
qed

subsection \<open>Flushing before a literal\<close>

lemma chunks_last_one:
  "length t mod 3 = 1 \<Longrightarrow> last (chunks t) = Chunker_Set (last t) 0 0"
proof (induction t rule: chunks.induct)
  case (1 a b c rest)
  then have "rest \<noteq> []" by auto
  moreover from this have "chunks rest \<noteq> []" by (cases rest rule: chunks.cases) simp_all
  ultimately show ?case using 1 by simp
qed simp_all

lemma chunks_last_two:
  "length t mod 3 = 2 \<Longrightarrow> last (chunks t) = Chunker_Set (last (butlast t)) (last t) 0"
proof (induction t rule: chunks.induct)
  case (1 a b c rest)
  then have "rest \<noteq> []" by auto
  moreover from this have "chunks rest \<noteq> []" by (cases rest rule: chunks.cases) simp_all
  moreover have "butlast rest \<noteq> []" using 1(2) by (cases rest rule: chunks.cases) simp_all
  ultimately show ?case using 1 by simp
qed simp_all

text \<open>
  C7: whenever a 16-bit literal word is pushed into the repository while sub-codewords
  are pending, the pending sub-codewords are written first, packed three to a container
  in their order, and the literal is written after them; a last group of one or two
  sub-codewords is one container, padded with zeros. (The hypotheses are the invariant
  of the repository and room in the buffer for these words.)
\<close>

theorem Set16_flushes_pending:
  assumes "Repository_inv r" and "0 < rep_tempCounter r"
    and "rep_counter r + length (chunks (rep_temp r)) < length (rep_buffer r)"
  shows "\<exists>r'. Repository_Set16 w r = Inr r'
    \<and> Repository_Get r' = Repository_Get r @ chunks (rep_temp r) @ [w]
    \<and> rep_temp r' = [] \<and> rep_tempCounter r' = 0
    \<and> length (chunks (rep_temp r)) = (length (rep_temp r) + 2) div 3
    \<and> (length (rep_temp r) mod 3 = 1 \<longrightarrow>
          last (chunks (rep_temp r)) = Chunker_Set (last (rep_temp r)) 0 0)
    \<and> (length (rep_temp r) mod 3 = 2 \<longrightarrow>
          last (chunks (rep_temp r)) =
            Chunker_Set (last (butlast (rep_temp r))) (last (rep_temp r)) 0)"
proof -
  have fit: "rep_counter r + length (chunks (rep_temp r) @ [w]) \<le> length (rep_buffer r)"
    using assms(3) by simp
  have "Repository_Get (appended (chunks (rep_temp r) @ [w]) r)
      = Repository_Get r @ chunks (rep_temp r) @ [w]"
    using appended_Get [OF fit] .
  then show ?thesis
    unfolding Repository_Set16_appended [OF assms(1,3)]
    by (simp add: Repository_Get_def Repository_GetSize_def length_chunks_eq chunks_last_one
        chunks_last_two)
qed

theorem Set16_flushes_pending_witness:
  "Repository_Get (Repository_Set8 0x1F (Repository_Set8 0x1F (SpeedFirstRepository_new 100))) = []
   \<and> (\<exists>r'. Repository_Set16 0x7FFF
          (Repository_Set8 0x1F (Repository_Set8 0x1F (SpeedFirstRepository_new 100))) = Inr r'
        \<and> Repository_Get r' = [0x03FF, 0x7FFF])"
proof -
  let ?r = "Repository_Set8 0x1F (Repository_Set8 0x1F (SpeedFirstRepository_new 100))"
  have inv: "Repository_inv ?r"
    by (intro Repository_inv_Set8 Repository_inv_new)
  have pending: "0 < rep_tempCounter ?r" by (simp add: Repository_Set8_def)
  have t: "rep_temp ?r = [0x1F, 0x1F]"
    by (simp add: Repository_Set8_def SpeedFirstRepository_new_def)
  have room: "rep_counter ?r + length (chunks (rep_temp ?r)) < length (rep_buffer ?r)"
    unfolding t by (simp add: Repository_Set8_def SpeedFirstRepository_new_def)
  have g: "Repository_Get ?r = []"
    by (simp add: Repository_Get_def Repository_GetSize_def Repository_Set8_def
        SpeedFirstRepository_new_def)
  have c: "chunks [0x1F, 0x1F] = [0x03FF]" by (simp add: Chunker_Set_def)
  show ?thesis
    using Set16_flushes_pending [OF inv pending room, of "0x7FFF"] unfolding t g c by auto
qed


section \<open>The words of the output\<close>


lemma chunks_words:
  "w \<in> set (chunks t) \<Longrightarrow>
   \<exists>a b c. a \<in> insert 0 (set t) \<and> b \<in> insert 0 (set t) \<and> c \<in> insert 0 (set t)
     \<and> w = Chunker_Set a b c"
proof (induction t rule: chunks.induct)
  case (1 a b c rest)
  show ?case
  proof (cases "w = Chunker_Set a b c")
    case True
    then show ?thesis by fastforce
  next
    case False
    then have "w \<in> set (chunks rest)" using "1.prems" by simp
    from "1.IH" [OF this] show ?thesis by fastforce
  qed
next
  case (2 a b)
  then show ?case by fastforce
next
  case (3 a)
  then show ?case by fastforce
next
  case 4
  then show ?case by simp
qed

lemma pack_items_words:
  "w \<in> set (pack_items pending items) \<Longrightarrow>
   Lit w \<in> set items
   \<or> (\<exists>a b c. a \<in> insert 0 (set pending \<union> {v. Sub v \<in> set items})
         \<and> b \<in> insert 0 (set pending \<union> {v. Sub v \<in> set items})
         \<and> c \<in> insert 0 (set pending \<union> {v. Sub v \<in> set items})
         \<and> w = Chunker_Set a b c)"
proof (induction pending items rule: pack_items.induct)
  case (1 pending)
  then show ?case using chunks_words [of w pending] by simp
next
  case (2 pending v items)
  from "2.IH" [OF "2.prems" [simplified]] show ?case by auto
next
  case (3 pending x items)
  consider "w \<in> set (chunks pending)" | "w = x" | "w \<in> set (pack_items [] items)"
    using "3.prems" by auto
  then show ?case
  proof cases
    case 1
    from chunks_words [OF this] show ?thesis by auto
  next
    case 2
    then show ?thesis by simp
  next
    case 3
    from "3.IH" [OF this] show ?thesis by auto
  qed
qed

lemma Encoder_emit_Lit:
  "Lit w \<in> set (fst (Encoder_emit shift x s)) \<Longrightarrow> w = Raw15bit_Get (BitShifter_Get shift x)"
  by (auto simp: Encoder_emit_def Let_def run_items_def split: if_splits)

lemma Encoder_items_Lit:
  "Lit w \<in> set (fst (Encoder_items shift xs s)) \<Longrightarrow>
   \<exists>x \<in> set xs. w = Raw15bit_Get (BitShifter_Get shift x)"
proof (induction xs arbitrary: s)
  case Nil
  then show ?case by simp
next
  case (Cons x xs)
  then show ?case
    using Encoder_emit_Lit by (auto simp: Encoder_items_Cons simp del: Encoder_items.simps)
qed

lemma QOI15Encoder_items_Lit:
  "Lit w \<in> set (QOI15Encoder_items shift xs) \<Longrightarrow>
   \<exists>x \<in> set xs. w = Raw15bit_Get (BitShifter_Get shift x)"
  using Encoder_items_Lit by (auto simp: QOI15Encoder_items_alt run_items_def)

lemma Sub_items_le:
  "a \<in> insert 0 {v. Sub v \<in> set (QOI15Encoder_items shift xs)} \<Longrightarrow> a \<le> 0x1F"
  using QOI15Encoder_items_ok [of "Sub a" shift xs] by auto

text \<open>
  C6: every 16-bit word of the encoder's output is either a literal container, written
  by \<open>Set(uint16_t)\<close> with the value \<open>Raw15bit::Get\<close> of a sample and with bit 15 set, or
  a packed triple \<open>Chunker::Set\<close> of three sub-codewords, each one passed to
  \<open>Set(uint8_t)\<close> or a padding zero and at most \<open>0x1F\<close>, with bit 15 clear; the test of
  bit 15 tells the two forms apart.
\<close>

theorem output_words_disjoint:
  "\<exists>out. encode shift xs = Some (Inr out)
     \<and> (\<forall>w \<in> set out.
          (Raw15bit_IsValid w \<and> Lit w \<in> set (QOI15Encoder_items shift xs)
             \<and> (\<exists>x \<in> set xs. w = Raw15bit_Get (BitShifter_Get shift x)))
        \<or> (\<not> Raw15bit_IsValid w
             \<and> (\<exists>a b c. a \<in> insert 0 {v. Sub v \<in> set (QOI15Encoder_items shift xs)}
                   \<and> b \<in> insert 0 {v. Sub v \<in> set (QOI15Encoder_items shift xs)}
                   \<and> c \<in> insert 0 {v. Sub v \<in> set (QOI15Encoder_items shift xs)}
                   \<and> a \<le> 0x1F \<and> b \<le> 0x1F \<and> c \<le> 0x1F \<and> w = Chunker_Set a b c)))"
proof -
  let ?items = "QOI15Encoder_items shift xs"
  let ?out = "pack_items [] ?items"
  let ?S = "insert 0 {v. Sub v \<in> set ?items}"
  have "(Raw15bit_IsValid w \<and> Lit w \<in> set ?items
             \<and> (\<exists>x \<in> set xs. w = Raw15bit_Get (BitShifter_Get shift x)))
        \<or> (\<not> Raw15bit_IsValid w
             \<and> (\<exists>a b c. a \<in> ?S \<and> b \<in> ?S \<and> c \<in> ?S
                   \<and> a \<le> 0x1F \<and> b \<le> 0x1F \<and> c \<le> 0x1F \<and> w = Chunker_Set a b c))"
    if w: "w \<in> set ?out" for w
  proof -
    from pack_items_words [OF w]
    consider (lit) "Lit w \<in> set ?items"
      | (packed) a b c where "a \<in> ?S" "b \<in> ?S" "c \<in> ?S" "w = Chunker_Set a b c"
      by auto
    then show ?thesis
    proof cases
      case lit
      then have "Raw15bit_IsValid w" using QOI15Encoder_items_ok [of "Lit w" shift xs] by simp
      then show ?thesis using lit QOI15Encoder_items_Lit [OF lit] by simp
    next
      case packed
      have le: "a \<le> 0x1F" "b \<le> 0x1F" "c \<le> 0x1F"
        using packed(1-3) Sub_items_le by blast+
      then have "\<not> Raw15bit_IsValid w"
        unfolding packed(4) by (rule Chunker_Set_not_literal)
      then show ?thesis using packed le by blast
    qed
  qed
  then show ?thesis unfolding encode_pack by blast
qed

theorem output_words_disjoint_witness:
  "encode 1 [0x0100, 0x0100, 0x0102, 0x1000, 0x1000, 0x0100] = Some (Inr [0x8080, 0x0301, 0x8800, 0x0001, 0x8080])
   \<and> Raw15bit_IsValid 0x8080 \<and> \<not> Raw15bit_IsValid 0x0301"
proof -
  let ?ys = "[0x0100, 0x0100, 0x0102, 0x1000, 0x1000, 0x0100] :: uint16_t list"
  let ?out = "[0x8080, 0x0301, 0x8800, 0x0001, 0x8080] :: uint16_t list"
  obtain out where e: "encode 1 ?ys = Some (Inr out)"
    and w: "\<forall>w \<in> set out. Raw15bit_IsValid w \<and> Lit w \<in> set (QOI15Encoder_items 1 ?ys)
              \<and> (\<exists>x \<in> set ?ys. w = Raw15bit_Get (BitShifter_Get 1 x))
          \<or> \<not> Raw15bit_IsValid w
             \<and> (\<exists>a b c. a \<in> insert 0 {v. Sub v \<in> set (QOI15Encoder_items 1 ?ys)}
                   \<and> b \<in> insert 0 {v. Sub v \<in> set (QOI15Encoder_items 1 ?ys)}
                   \<and> c \<in> insert 0 {v. Sub v \<in> set (QOI15Encoder_items 1 ?ys)}
                   \<and> a \<le> 0x1F \<and> b \<le> 0x1F \<and> c \<le> 0x1F \<and> w = Chunker_Set a b c)"
    using output_words_disjoint [of 1 ?ys] by blast
  have out: "out = ?out" using e unfolding encode_example by simp
  have "Raw15bit_IsValid 0x8080" and "\<not> Raw15bit_IsValid 0x0301"
    by (simp_all add: Raw15bit_IsValid_def)
  then show ?thesis using encode_example by simp
qed



section \<open>The hash tables of the encoder and the decoder\<close>

lemma item_literals_append: "item_literals (a @ b) = item_literals a @ item_literals b"
  by (induction a rule: item_literals.induct) simp_all

lemma item_literals_Subs [simp]: "item_literals (map Sub vs) = []"
  by (induction vs) simp_all

lemma Table_inserts_append: "Table_inserts t (a @ b) = Table_inserts (Table_inserts t a) b"
  by (simp add: Table_inserts_def)

lemma Table_inserts_simps [simp]:
  "Table_inserts t [] = t"
  "Table_inserts t (c # cs) = Table_inserts (Table_Insert t (Table_Hash Table_T t c) c) cs"
  by (simp_all add: Table_inserts_def)

lemma literals_append: "literals (a @ b) = literals a @ literals b"
  by (simp add: literals_def)

lemma literals_chunks: "\<forall>v \<in> set t. v \<le> 0x1F \<Longrightarrow> literals (chunks t) = []"
  by (induction t rule: chunks.induct) (simp_all add: literals_def Chunker_Set_not_literal)

lemma literals_pack_items:
  "\<forall>i \<in> set items. item_ok i \<Longrightarrow> \<forall>v \<in> set pending. v \<le> 0x1F \<Longrightarrow>
   literals (pack_items pending items) = item_literals items"
proof (induction pending items rule: pack_items.induct)
  case (1 pending)
  then show ?case by (simp add: literals_chunks)
next
  case (2 pending v items)
  then show ?case by simp
next
  case (3 pending w items)
  have "literals [w] = [Raw15bit_Set w]" using 3(2) by (simp add: literals_def)
  then have "literals (w # pack_items [] items) = Raw15bit_Set w # literals (pack_items [] items)"
    using literals_append [of "[w]" "pack_items [] items"] by simp
  then show ?case
    using 3 by (simp add: literals_append literals_chunks)
qed

lemma item_literals_unpack: "item_literals (unpack ws) = literals ws"
proof (induction ws)
  case Nil
  show ?case by (simp add: unpack_def literals_def)
next
  case (Cons w ws)
  have "item_literals (unpack_word w) = literals [w]"
    by (simp add: unpack_word_def literals_def split: prod.splits)
  then show ?case
    using Cons literals_append [of "[w]" ws]
    by (simp add: unpack_Cons item_literals_append)
qed

lemma Decoder_emit_table:
  "dec_table (snd (Decoder_emit i d)) = Table_inserts (dec_table d) (item_literals [i])"
  by (cases i) (simp_all add: Let_def)

lemma Decoder_items_table:
  "dec_table (snd (Decoder_items items d)) = Table_inserts (dec_table d) (item_literals items)"
proof (induction items arbitrary: d)
  case Nil
  show ?case by simp
next
  case (Cons i items)
  have "item_literals (i # items) = item_literals [i] @ item_literals items"
    using item_literals_append [of "[i]" items] by simp
  then show ?case
    by (simp add: Decoder_items_Cons Cons.IH Decoder_emit_table Table_inserts_append
        del: Decoder_items.simps Decoder_emit.simps item_literals.simps Table_inserts_simps)
qed

lemma Encoder_emit_table:
  "enc_table (snd (Encoder_emit (Suc m) x e))
     = Table_inserts (enc_table e) (item_literals (fst (Encoder_emit (Suc m) x e)))"
  using Raw15bit_Set_Get [of m x]
  by (simp add: Encoder_emit_def Let_def item_literals_append run_items_def)

lemma Encoder_items_table:
  "enc_table (snd (Encoder_items (Suc m) xs e))
     = Table_inserts (enc_table e) (item_literals (fst (Encoder_items (Suc m) xs e)))"
proof (induction xs arbitrary: e)
  case Nil
  show ?case by simp
next
  case (Cons x xs)
  show ?case
    by (simp add: Encoder_items_Cons Cons.IH Encoder_emit_table item_literals_append
        Table_inserts_append del: Encoder_items.simps)
qed

lemma QOI15Decoder_table:
  "QOI15Decoder ws n = Inr d \<Longrightarrow> dec_table d = Table_inserts (Table_new Table_T 1) (literals ws)"
  unfolding QOI15Decoder_writes
  by (auto simp: Decoder_items_table item_literals_unpack Decoder_new_def split: sum.splits)

lemma pack_items_append:
  "pack_items pending (items @ items') =
     feed_written pending items @ pack_items (feed_pending pending items) items'"
  by (induction pending items rule: pack_items.induct) simp_all

lemma length_feed_written: "length (feed_written pending items) \<le> length pending + length items"
proof -
  have "pack_items pending items = feed_written pending items @ chunks (feed_pending pending items)"
    using pack_items_append [of pending items "[]"] by simp
  then have "length (feed_written pending items) \<le> length (pack_items pending items)" by simp
  then show ?thesis using length_pack_items [of pending items] by simp
qed

lemma Repository_feed_appended:
  assumes "Repository_inv r"
    and "rep_counter r + length (feed_written (rep_temp r) items) \<le> length (rep_buffer r)"
  shows "Repository_feed items r =
     Inr ((appended (feed_written (rep_temp r) items) r)
            \<lparr>rep_temp := feed_pending (rep_temp r) items,
              rep_tempCounter := length (feed_pending (rep_temp r) items)\<rparr>)"
  using assms
proof (induction items arbitrary: r)
  case Nil
  then show ?case by (simp add: Repository_inv_def)
next
  case (Cons i items)
  show ?case
  proof (cases i)
    case (Sub v)
    let ?r = "Repository_Set8 v r"
    have inv: "Repository_inv ?r" using Cons.prems(1) by (rule Repository_inv_Set8)
    have fit: "rep_counter ?r + length (feed_written (rep_temp ?r) items) \<le> length (rep_buffer ?r)"
      using Cons.prems(2) Sub by (simp add: Repository_Set8_def)
    show ?thesis
      using Cons.IH [OF inv fit] Sub by (simp add: Repository_Set8_def appended_def)
  next
    case (Lit w)
    let ?ws = "chunks (rep_temp r) @ [w]"
    let ?r = "(appended ?ws r)\<lparr>rep_temp := [], rep_tempCounter := 0\<rparr>"
    have fit0: "rep_counter r + length ?ws + length (feed_written [] items) \<le> length (rep_buffer r)"
      using Cons.prems(2) Lit by simp
    have set16: "Repository_Set16 w r = Inr ?r"
      using Cons.prems(1) fit0 by (intro Repository_Set16_appended) simp_all
    have inv: "Repository_inv ?r"
      using fit0 by (simp add: Repository_inv_def)
    have fit: "rep_counter ?r + length (feed_written (rep_temp ?r) items) \<le> length (rep_buffer ?r)"
      using fit0 by simp
    show ?thesis
      using Cons.IH [OF inv fit] Lit set16 appended_appended [OF fit0] by simp
  qed
qed

lemma literals_feed_written:
  "\<forall>i \<in> set items. item_ok i \<Longrightarrow> \<forall>v \<in> set pending. v \<le> 0x1F \<Longrightarrow>
   literals (feed_written pending items) = item_literals items"
proof (induction pending items rule: feed_written.induct)
  case (1 pending)
  show ?case by (simp add: literals_def)
next
  case (2 pending v items)
  then show ?case by simp
next
  case (3 pending w items)
  have "literals [w] = [Raw15bit_Set w]" using 3(2) by (simp add: literals_def)
  then have "literals (w # feed_written [] items) = Raw15bit_Set w # literals (feed_written [] items)"
    using literals_append [of "[w]" "feed_written [] items"] by simp
  then show ?case
    using 3 by (simp add: literals_append literals_chunks)
qed

lemma Encoder_items_append:
  "Encoder_items shift (xs @ ys) s =
     (fst (Encoder_items shift xs s) @ fst (Encoder_items shift ys (snd (Encoder_items shift xs s))),
      snd (Encoder_items shift ys (snd (Encoder_items shift xs s))))"
proof (induction xs arbitrary: s)
  case Nil
  show ?case by simp
next
  case (Cons x xs)
  show ?case
    using Cons.IH [of "snd (Encoder_emit shift x s)"]
    by (simp add: Encoder_items_Cons del: Encoder_items.simps)
qed

lemma length_Decoder_items_prefix:
  "length (fst (Decoder_items items d)) \<le> length (final (Decoder_items (items @ items') d))"
  by (simp add: final_append)

lemma tables_after_samples:
  assumes "j \<le> length xs"
  shows "\<exists>e d. Encoder_loop 1 (take j xs) (Encoder_new (length xs)) = Some (Inr e)
     \<and> Decoder_loop (Repository_Get (enc_repository e)) [] (Decoder_new (length xs)) = Inr d
     \<and> enc_table e = Table_inserts (Table_new Table_T 1) (literals (Repository_Get (enc_repository e)))
     \<and> dec_table d = enc_table e"
proof -
  let ?e0 = "Encoder_new (length xs)" and ?r0 = "SpeedFirstRepository_new (length xs)"
  let ?d0 = "Decoder_new (length xs)"
  define items where "items = fst (Encoder_items 1 (take j xs) ?e0)"
  define ej where "ej = snd (Encoder_items 1 (take j xs) ?e0)"
  define rest where "rest = fst (Encoder_items 1 (drop j xs) ej) @ run_items (enc_runLength (snd (Encoder_items 1 (drop j xs) ej)))"
  define W where "W = feed_written [] items"
  define out where "out = pack_items [] (QOI15Encoder_items 1 xs)"
  have z: "0 \<le> enc_runLength ?e0" by (simp add: Encoder_new_def)
  have ok: "\<forall>i \<in> set items. item_ok i"
    unfolding items_def using Encoder_items_ok by blast
  text \<open>The encoder after \<open>j\<close> samples.\<close>
  have "int (length items) + enc_runLength ej \<le> enc_runLength ?e0 + int (length (take j xs))"
    unfolding items_def ej_def using length_Encoder_items [OF z] .
  moreover have "0 \<le> enc_runLength ej"
    unfolding ej_def using Encoder_items_runLength [OF z] .
  ultimately have li: "length items \<le> j" by (simp add: Encoder_new_def)
  have "length W \<le> length items"
    unfolding W_def using length_feed_written [of "[]" items] by simp
  then have lw: "length W \<le> length xs" using li assms by simp
  have inv: "Repository_inv ?r0" by (rule Repository_inv_new)
  have t0: "rep_temp ?r0 = []" "rep_counter ?r0 = 0" "length (rep_buffer ?r0) = length xs"
    by (simp_all add: SpeedFirstRepository_new_def)
  have feed: "Repository_feed items ?r0 =
      Inr ((appended W ?r0)\<lparr>rep_temp := feed_pending [] items,
             rep_tempCounter := length (feed_pending [] items)\<rparr>)"
    using Repository_feed_appended [OF inv, of items] lw unfolding t0 W_def by simp
  define e where "e = ej\<lparr>enc_repository := (appended W ?r0)\<lparr>rep_temp := feed_pending [] items,
             rep_tempCounter := length (feed_pending [] items)\<rparr>\<rparr>"
  have r0: "enc_repository ?e0 = ?r0" by (simp add: Encoder_new_def)
  have loop: "Encoder_loop 1 (take j xs) ?e0 = Some (Inr e)"
    unfolding Encoder_loop_items [OF z] r0 items_def [symmetric] ej_def [symmetric] feed e_def
    by simp
  have get: "Repository_Get (enc_repository e) = W"
    using appended_Get [of ?r0 W] lw unfolding t0
    by (simp add: e_def Repository_Get_def Repository_GetSize_def t0)
  have et: "enc_table e = Table_inserts (Table_new Table_T 1) (literals W)"
  proof -
    have "enc_table e = enc_table ej" by (simp add: e_def)
    also have "\<dots> = Table_inserts (enc_table ?e0) (item_literals items)"
      unfolding ej_def items_def using Encoder_items_table [of 0 "take j xs" ?e0] by simp
    also have "item_literals items = literals W"
      unfolding W_def using ok by (intro literals_feed_written [symmetric]) simp_all
    finally show ?thesis by (simp add: Encoder_new_def)
  qed
  text \<open>The words written so far begin the output.\<close>
  have "QOI15Encoder_items 1 xs = items @ rest"
  proof -
    have "Encoder_items 1 xs ?e0 = Encoder_items 1 (take j xs @ drop j xs) ?e0" by simp
    then show ?thesis
      unfolding QOI15Encoder_items_alt Encoder_items_append items_def ej_def rest_def by simp
  qed
  then have split: "out = W @ pack_items (feed_pending [] items) rest"
    unfolding out_def W_def by (simp add: pack_items_append)
  text \<open>The decoder on the words written so far.\<close>
  define p where "p = Decoder_items (unpack W) (Decoder_new 0)"
  have "length (fst p) \<le> length (final (Decoder_items (unpack W @ unpack (pack_items (feed_pending [] items) rest)) (Decoder_new 0)))"
    unfolding p_def by (rule length_Decoder_items_prefix)
  also have "\<dots> = length (Decoder_samples out)"
    unfolding split by (simp add: Decoder_samples_alt final_def unpack_append)
  also have "\<dots> \<le> length xs"
    unfolding out_def by (rule length_Decoder_samples_encode)
  finally have fit: "rep_counter ?r0 + length (fst p) \<le> length (rep_buffer ?r0)"
    unfolding t0 by simp
  have tc: "rep_tempCounter (dec_repository ?d0) = 0"
    by (simp add: Decoder_new_def SpeedFirstRepository_new_def)
  have dr: "dec_repository ?d0 = ?r0" by (simp add: Decoder_new_def)
  have dl: "Decoder_loop W [] ?d0 = Inr ((snd p)\<lparr>dec_repository := appended (fst p) ?r0\<rparr>)"
    unfolding Decoder_loop_items [OF tc] dr
    by (subst Decoder_new_repository)
       (simp add: written_def Decoder_items_repository p_def [symmetric]
          Repository_writes_appended [OF fit])
  have dt: "dec_table ((snd p)\<lparr>dec_repository := appended (fst p) ?r0\<rparr>)
      = Table_inserts (Table_new Table_T 1) (literals W)"
    unfolding p_def by (simp add: Decoder_items_table item_literals_unpack Decoder_new_def)
  show ?thesis
  proof (intro exI conjI)
    show "Encoder_loop 1 (take j xs) ?e0 = Some (Inr e)" by (rule loop)
    show "Decoder_loop (Repository_Get (enc_repository e)) [] ?d0
        = Inr ((snd p)\<lparr>dec_repository := appended (fst p) ?r0\<rparr>)"
      unfolding get by (rule dl)
    show "enc_table e = Table_inserts (Table_new Table_T 1) (literals (Repository_Get (enc_repository e)))"
      unfolding get by (rule et)
    show "dec_table ((snd p)\<lparr>dec_repository := appended (fst p) ?r0\<rparr>) = enc_table e"
      unfolding dt et ..
  qed
qed


text \<open>
  C8: for every input, the table of the encoder at the end is the initial table with one
  insertion for each literal container of its output, in order, at the hash of the
  15-bit value of the container (it inserts exactly when it emits a raw literal); the
  decoder, given this output, ends with the table built by the same insertions (it
  inserts exactly when it reads a literal container, with the same hash and value); so
  the two tables have the same contents. The same holds during the run: after any
  number \<open>j\<close> of samples, hence after each literal, the table of the encoder is the
  initial table after the insertions for the literal containers written so far, and the
  decoder that has read the words written so far has the same table.
\<close>

theorem table_determinism:
  "\<exists>e d. QOI15Encoder 1 xs = Some (Inr e)
     \<and> QOI15Decoder (Encoder_Get e) (length xs) = Inr d
     \<and> enc_table e = Table_inserts (Table_new Table_T 1) (literals (Encoder_Get e))
     \<and> dec_table d = Table_inserts (Table_new Table_T 1) (literals (Encoder_Get e))
     \<and> dec_table d = enc_table e
     \<and> (\<forall>j \<le> length xs.
          \<exists>e' d'. Encoder_loop 1 (take j xs) (Encoder_new (length xs)) = Some (Inr e')
            \<and> Decoder_loop (Repository_Get (enc_repository e')) [] (Decoder_new (length xs)) = Inr d'
            \<and> enc_table e' =
                Table_inserts (Table_new Table_T 1) (literals (Repository_Get (enc_repository e')))
            \<and> dec_table d' = enc_table e')"
proof -
  let ?items = "QOI15Encoder_items 1 xs"
  let ?out = "pack_items [] ?items"
  let ?p = "Encoder_items 1 xs (Encoder_new (length xs))"
  obtain e where e: "QOI15Encoder 1 xs = Some (Inr e)" and t: "enc_table e = enc_table (snd ?p)"
    and g: "Encoder_Get e = ?out"
    using encode_pack [of 1 xs] by (auto simp: QOI15Encoder_pack encode_def)
  have ok: "\<forall>i \<in> set ?items. item_ok i" using QOI15Encoder_items_ok by blast
  have "literals ?out = item_literals ?items"
    using ok by (intro literals_pack_items) simp_all
  also have "\<dots> = item_literals (fst ?p)"
    by (simp add: QOI15Encoder_items_alt item_literals_append run_items_def)
  finally have l: "literals ?out = item_literals (fst ?p)" .
  have et: "enc_table e = Table_inserts (Table_new Table_T 1) (literals ?out)"
    unfolding t l using Encoder_items_table [of 0 xs "Encoder_new (length xs)"]
    by (simp add: Encoder_new_def)
  have "length (Decoder_samples ?out) \<le> length xs"
    by (rule length_Decoder_samples_encode)
  then have "decode ?out (length xs) = Inr (Decoder_samples ?out)"
    by (simp add: decode_samples)
  then obtain d where d: "QOI15Decoder ?out (length xs) = Inr d"
    by (cases "QOI15Decoder ?out (length xs)") (simp_all add: decode_def)
  have dt: "dec_table d = Table_inserts (Table_new Table_T 1) (literals ?out)"
    using QOI15Decoder_table [OF d] .
  show ?thesis
  proof (intro exI conjI)
    show "QOI15Encoder 1 xs = Some (Inr e)" by (rule e)
    show "QOI15Decoder (Encoder_Get e) (length xs) = Inr d" unfolding g by (rule d)
    show "enc_table e = Table_inserts (Table_new Table_T 1) (literals (Encoder_Get e))"
      unfolding g by (rule et)
    show "dec_table d = Table_inserts (Table_new Table_T 1) (literals (Encoder_Get e))"
      unfolding g by (rule dt)
    show "dec_table d = enc_table e" unfolding et dt ..
    show "\<forall>j \<le> length xs.
          \<exists>e' d'. Encoder_loop 1 (take j xs) (Encoder_new (length xs)) = Some (Inr e')
            \<and> Decoder_loop (Repository_Get (enc_repository e')) [] (Decoder_new (length xs)) = Inr d'
            \<and> enc_table e' =
                Table_inserts (Table_new Table_T 1) (literals (Repository_Get (enc_repository e')))
            \<and> dec_table d' = enc_table e'"
      using tables_after_samples by blast
  qed
qed

lemma table_example:
  "map_option (map_sum id (tbl_ref \<circ> enc_table)) (QOI15Encoder 1 [0x0100, 0x0100, 0x0102, 0x1000, 0x1000, 0x0100])
     = Some (Inr [0x0080, 0xFFFF, 0xFFFF, 0xFFFF, 0xFFFF, 0xFFFF, 0xFFFF, 0xFFFF])"
  by code_simp

theorem table_determinism_witness:
  "\<exists>e d. QOI15Encoder 1 [0x0100, 0x0100, 0x0102, 0x1000, 0x1000, 0x0100] = Some (Inr e)
     \<and> QOI15Decoder [0x8080, 0x0301, 0x8800, 0x0001, 0x8080] 6 = Inr d
     \<and> tbl_ref (enc_table e) = [0x0080, 0xFFFF, 0xFFFF, 0xFFFF, 0xFFFF, 0xFFFF, 0xFFFF, 0xFFFF]
     \<and> tbl_ref (dec_table d) = [0x0080, 0xFFFF, 0xFFFF, 0xFFFF, 0xFFFF, 0xFFFF, 0xFFFF, 0xFFFF]"
proof -
  let ?ys = "[0x0100, 0x0100, 0x0102, 0x1000, 0x1000, 0x0100] :: uint16_t list"
  obtain e d where e: "QOI15Encoder 1 ?ys = Some (Inr e)"
    and d: "QOI15Decoder (Encoder_Get e) (length ?ys) = Inr d"
    and t: "dec_table d = enc_table e"
    using table_determinism [of ?ys] by blast
  have g: "Encoder_Get e = [0x8080, 0x0301, 0x8800, 0x0001, 0x8080]"
    using encode_example unfolding encode_def e by simp
  have r: "tbl_ref (enc_table e) = [0x0080, 0xFFFF, 0xFFFF, 0xFFFF, 0xFFFF, 0xFFFF, 0xFFFF, 0xFFFF]"
    using table_example unfolding e by simp
  have d': "QOI15Decoder [0x8080, 0x0301, 0x8800, 0x0001, 0x8080] 6 = Inr d"
    using d unfolding g by (simp add: eval_nat_numeral)
  show ?thesis
    using e d' r t by auto
qed




section \<open>The digits of a run\<close>

lemma base8_digits_0 [simp]: "base8_digits 0 = []"
  by (simp add: base8_digits.simps)

lemma base8_digits_pos:
  "0 < n \<Longrightarrow> base8_digits n = word_of_nat (n mod 8) # base8_digits (n div 8)"
  by (subst base8_digits.simps) simp

lemma base8_digit_zero: "(word_of_nat (n mod 8) :: uint8_t) = 0 \<longleftrightarrow> n mod 8 = 0"
proof -
  have "n mod 8 < 8" by simp
  then have "n mod 8 \<in> {0, 1, 2, 3, 4, 5, 6, 7}" by auto
  then show ?thesis by auto
qed

lemma base8_digits_nonempty: "0 < n \<Longrightarrow> base8_digits n \<noteq> []"
  by (simp add: base8_digits_pos)

lemma base8_digits_last: "0 < n \<Longrightarrow> last (base8_digits n) \<noteq> 0"
proof (induction n rule: base8_digits.induct)
  case (1 n)
  show ?case
  proof (cases "n div 8 = 0")
    case True
    then have "n mod 8 = n" by presburger
    then have "n mod 8 \<noteq> 0" using "1.prems" by simp
    then have "(word_of_nat (n mod 8) :: uint8_t) \<noteq> 0" by (simp only: base8_digit_zero) simp
    moreover have "base8_digits n = [word_of_nat (n mod 8)]"
      using True "1.prems" by (simp add: base8_digits_pos del: of_nat_mod)
    ultimately show ?thesis by simp
  next
    case False
    then have pos: "0 < n div 8" by simp
    have "last (base8_digits n) = last (base8_digits (n div 8))"
      using "1.prems" base8_digits_nonempty [OF pos] by (simp add: base8_digits_pos)
    then show ?thesis using "1.IH" [OF _ pos] "1.prems" by simp
  qed
qed

lemma zeros_followed_digits: "zeros_followed (map Sub (base8_digits n))"
proof (induction n rule: base8_digits.induct)
  case (1 n)
  show ?case
  proof (cases "n = 0")
    case True
    then show ?thesis by simp
  next
    case False
    then have pos: "0 < n" by simp
    have ih: "zeros_followed (map Sub (base8_digits (n div 8)))" using "1.IH" [OF False] .
    show ?thesis
    proof (cases "n mod 8 = 0")
      case True
      then have "0 < n div 8" using pos by presburger
      then have "base8_digits (n div 8) =
          word_of_nat (n div 8 mod 8) # base8_digits (n div 8 div 8)"
        by (rule base8_digits_pos)
      moreover have "RunLength_CheckHeader RunLength_T (word_of_nat (n div 8 mod 8))"
        by (simp add: RunLength_header_iff base8_digit_le)
      ultimately show ?thesis
        using ih pos by (simp add: base8_digits_pos [OF pos])
    next
      case False
      then show ?thesis
        using ih by (simp add: base8_digits_pos [OF pos] base8_digit_zero)
    qed
  qed
qed

lemma zeros_followed_append:
  "zeros_followed xs \<Longrightarrow> zeros_followed ys \<Longrightarrow> zeros_followed (xs @ ys)"
  by (induction xs) auto

lemma zeros_followed_split:
  "zeros_followed items \<Longrightarrow> items = pre @ Sub 0 # post \<Longrightarrow>
   \<exists>v rest. post = Sub v # rest \<and> RunLength_CheckHeader RunLength_T v"
  by (induction pre arbitrary: items) auto

lemma or_bit_nonzero:
  fixes v h :: uint8_t
  assumes "bit h n"
  shows "v OR h \<noteq> 0"
proof
  assume "v OR h = 0"
  then have "bit (v OR h) n = bit (0 :: uint8_t) n" by simp
  then show False using assms by (simp add: bit_or_iff)
qed

lemma Differential_Get_nonzero: "Differential_Get Differential_T diff \<noteq> 0"
proof -
  have b: "bit (0x10 :: uint8_t) 4" by simp
  obtain v where "Differential_Get Differential_T diff = v OR 0x10"
    by (simp add: Differential_Get_def Differential_T_def Let_def)
  then show ?thesis using or_bit_nonzero [OF b] by simp
qed

lemma Table_Get_nonzero: "Table_Get Table_T h \<noteq> 0"
proof -
  have "bit (0x08 :: uint8_t) 3" by simp
  then have "h OR 0x08 \<noteq> 0" by (rule or_bit_nonzero)
  then show ?thesis
    by (simp add: Table_Get_def Table_T_def or.commute)
qed

lemma zeros_followed_emit: "zeros_followed (fst (Encoder_emit shift x s))"
  using zeros_followed_digits [of "nat (enc_runLength s)"]
  by (auto simp: Encoder_emit_def Let_def run_items_def Differential_Get_nonzero
      Table_Get_nonzero intro!: zeros_followed_append)

lemma zeros_followed_items: "zeros_followed (fst (Encoder_items shift xs s))"
proof (induction xs arbitrary: s)
  case Nil
  show ?case by simp
next
  case (Cons x xs)
  show ?case
    by (simp add: Encoder_items_Cons zeros_followed_append zeros_followed_emit Cons.IH
        del: Encoder_items.simps)
qed

lemma zeros_followed_QOI15Encoder_items: "zeros_followed (QOI15Encoder_items shift xs)"
  by (simp add: QOI15Encoder_items_alt run_items_def zeros_followed_append zeros_followed_items
      zeros_followed_digits)

text \<open>
  C5: for every integer \<open>n \<ge> 0\<close>, \<open>RunLength::Get(n)\<close> returns the little-endian base-8
  digits of \<open>n\<close>, each with the tag \<open>00\<close> (it passes \<open>CheckHeader\<close>), and
  \<open>RunLength::Set\<close>, which ORs the low 3 bits of each element at the shifts 0, 3, 6, ...
  in list order, gives \<open>n\<close> back: \<open>Set(Get(n)) = n\<close>. (The argument of \<open>Get\<close> and the
  result of \<open>Set\<close> are \<open>int\<close>, so \<open>n\<close> is at most \<open>INT_MAX\<close>.)
\<close>

theorem RunLength_roundtrip:
  "0 \<le> n \<Longrightarrow> RunLength_Get RunLength_T n = Some (base8_digits (nat n))
     \<and> list_all (RunLength_CheckHeader RunLength_T) (base8_digits (nat n))
     \<and> (n \<le> INT_MAX \<longrightarrow> RunLength_Set RunLength_T (base8_digits (nat n)) = n)"
  using base8_digits_le [of _ "nat n"] RunLength_Set_digits [of "nat n"]
  by (simp add: RunLength_Get_digits list_all_iff RunLength_header_iff)

theorem RunLength_roundtrip_witness:
  "RunLength_Get RunLength_T 513 = Some [1, 0, 0, 1] \<and> RunLength_Set RunLength_T [1, 0, 0, 1] = 513
   \<and> RunLength_Get RunLength_T 0x7FFFFFFF = Some [7, 7, 7, 7, 7, 7, 7, 7, 7, 7, 1]
   \<and> RunLength_Set RunLength_T [7, 7, 7, 7, 7, 7, 7, 7, 7, 7, 1] = 0x7FFFFFFF"
proof -
  have d: "base8_digits (nat 513) = [1, 0, 0, 1]" by code_simp
  have d': "base8_digits (nat 0x7FFFFFFF) = [7, 7, 7, 7, 7, 7, 7, 7, 7, 7, 1]"
    by (simp add: base8_digits.simps)
  have h: "(0::int) \<le> 513" and h': "(0::int) \<le> 0x7FFFFFFF" by simp_all
  show ?thesis
    using RunLength_roundtrip [OF h] RunLength_roundtrip [OF h'] unfolding d d'
    by (simp add: INT_MAX_def)
qed

text \<open>
  Beyond \<open>INT_MAX\<close> there is no \<open>int\<close>: the eleven digits of \<open>2^31\<close> are read by \<open>Set\<close>
  as \<open>INT_MIN\<close>.
\<close>

lemma RunLength_Set_INT_MIN:
  "RunLength_Set RunLength_T [0, 0, 0, 0, 0, 0, 0, 0, 0, 0, 2] = - 2147483648"
  by (simp add: RunLength_Set_def RunLength_T_def)

text \<open>
  C10 (as the code has it): for every length \<open>L \<ge> 1\<close>, \<open>RunLength::Get(L)\<close> returns a
  non-empty list (the base-8 digits of \<open>L\<close>) in which every element passes
  \<open>RunLength::CheckHeader\<close> and the last, most significant digit is not zero, and
  \<open>Get(0)\<close> returns the empty list. A digit that is not the last one can be zero. Hence,
  in the sequence of sub-codewords the encoder passes to the repository, a zero-valued
  sub-codeword is always followed by a further run-length sub-codeword (of the same
  run): a zero-valued sub-codeword with no run digit after it comes only from the
  repository's padding.
\<close>

theorem RunLength_Get_digits_shape:
  "RunLength_Get RunLength_T 0 = Some []
   \<and> (1 \<le> L \<longrightarrow>
        (\<exists>ds. RunLength_Get RunLength_T L = Some ds \<and> ds \<noteq> []
           \<and> (\<forall>d \<in> set ds. RunLength_CheckHeader RunLength_T d) \<and> last ds \<noteq> 0))
   \<and> (QOI15Encoder_items shift xs = pre @ Sub 0 # post \<longrightarrow>
        (\<exists>v rest. post = Sub v # rest \<and> RunLength_CheckHeader RunLength_T v))"
proof -
  have zero: "RunLength_Get RunLength_T 0 = Some []"
    using RunLength_Get_digits [of 0] by simp
  have pos: "\<exists>ds. RunLength_Get RunLength_T L = Some ds \<and> ds \<noteq> []
           \<and> (\<forall>d \<in> set ds. RunLength_CheckHeader RunLength_T d) \<and> last ds \<noteq> 0"
    if "1 \<le> L"
  proof -
    have n: "0 < nat L" and l: "0 \<le> L" using that by simp_all
    show ?thesis
      using RunLength_Get_digits [OF l] base8_digits_nonempty [OF n] base8_digits_last [OF n]
        base8_digits_le [of _ "nat L"]
      by (simp add: RunLength_header_iff)
  qed
  show ?thesis
    using zero pos zeros_followed_split [OF zeros_followed_QOI15Encoder_items] by blast
qed

lemma items_example: "QOI15Encoder_items 1 (replicate 9 0) = [Lit 0x8000, Sub 0, Sub 1]"
  by code_simp

lemma Get_example: "RunLength_Get RunLength_T 8 = Some [0, 1]"
  by code_simp

theorem RunLength_Get_digits_shape_witness:
  "RunLength_Get RunLength_T 8 = Some [0, 1]
   \<and> QOI15Encoder_items 1 (replicate 9 0) = [Lit 0x8000] @ Sub 0 # [Sub 1]
   \<and> RunLength_CheckHeader RunLength_T 1"
proof -
  have s: "QOI15Encoder_items 1 (replicate 9 0) = [Lit 0x8000] @ Sub 0 # [Sub 1]"
    unfolding items_example by simp
  have h: "(1::int) \<le> 8" by simp
  show ?thesis
    using RunLength_Get_digits_shape [of 8 1 "replicate 9 0" "[Lit 0x8000]" "[Sub 1]"] s
    unfolding Get_example by auto
qed

text \<open>
  C10 with "zero-valued run-length sub-codewords arise only from padding, never from run
  encoding" does not hold: a run of 8 is encoded by the digits \<open>[0, 1]\<close>, so the
  zero-valued sub-codeword in the output for nine equal samples comes from run
  encoding, not from padding.
\<close>

theorem zero_digit_counterexample:
  "RunLength_Get RunLength_T 8 = Some [0, 1]
   \<and> QOI15Encoder_items 1 (replicate 9 0) = [Lit 0x8000, Sub 0, Sub 1]
   \<and> encode 1 (replicate 9 0) = Some (Inr [0x8000, Chunker_Set 0 1 0])"
  by code_simp


end
